theory Spec2Isabelle
  imports Main
begin

section \<open>Regular expressions of the asset and style code\<close>

text \<open>
  \<^verbatim>\<open>parseHtml\<close> and \<^verbatim>\<open>loadStyles\<close> of \<^verbatim>\<open>mini-qiankun3.js\<close> work with three regular
  expression literals. They are embedded as lists of items that are matched left to
  right by a backtracking matcher with JavaScript's priorities: a greedy repetition
  first tries to take one more character and only then the rest of the pattern, a
  lazy one the other way round. The flag of \<open>One\<close>, \<open>Star\<close> and \<open>Lazy\<close> says whether the
  item stands inside capture group 1.
\<close>

datatype cls = In "char list" | NotIn "char list"

fun member_cls :: "cls \<Rightarrow> char \<Rightarrow> bool" where
  "member_cls (In cs) c = (c \<in> set cs)"
| "member_cls (NotIn cs) c = (c \<notin> set cs)"

datatype item = Lit string | LitI string | One bool cls | Star bool cls | Lazy bool cls

text \<open>
  \<open>LitI\<close> is a literal of a pattern with the flag \<^verbatim>\<open>i\<close>: its letters match in either case.
\<close>

definition lower :: "char \<Rightarrow> char" where
  "lower c =
     (case map_of (zip ''ABCDEFGHIJKLMNOPQRSTUVWXYZ'' ''abcdefghijklmnopqrstuvwxyz'') c of
        None \<Rightarrow> c
      | Some d \<Rightarrow> d)"

text \<open>
  \<open>rmatch re s cap\<close> matches \<open>re\<close> at the start of \<open>s\<close>; \<open>cap\<close> is what group 1 holds so
  far. The result is the text of group 1 and the input left after the match.
\<close>

fun rmatch :: "item list \<Rightarrow> string \<Rightarrow> string \<Rightarrow> (string \<times> string) option" where
  "rmatch [] s cap = Some (cap, s)"
| "rmatch (Lit l # r) s cap =
     (if take (length l) s = l then rmatch r (drop (length l) s) cap else None)"
| "rmatch (LitI l # r) s cap =
     (if map lower (take (length l) s) = map lower l then rmatch r (drop (length l) s) cap
      else None)"
| "rmatch (One g c # r) [] cap = None"
| "rmatch (One g c # r) (x # xs) cap =
     (if member_cls c x then rmatch r xs (if g then cap @ [x] else cap) else None)"
| "rmatch (Star g c # r) [] cap = rmatch r [] cap"
| "rmatch (Star g c # r) (x # xs) cap =
     (if member_cls c x
      then (case rmatch (Star g c # r) xs (if g then cap @ [x] else cap) of
              Some m \<Rightarrow> Some m
            | None \<Rightarrow> rmatch r (x # xs) cap)
      else rmatch r (x # xs) cap)"
| "rmatch (Lazy g c # r) [] cap = rmatch r [] cap"
| "rmatch (Lazy g c # r) (x # xs) cap =
     (case rmatch r (x # xs) cap of
        Some m \<Rightarrow> Some m
      | None \<Rightarrow>
          (if member_cls c x then rmatch (Lazy g c # r) xs (if g then cap @ [x] else cap)
           else None))"

text \<open>
  The loop \<^verbatim>\<open>while ((match = regex.exec(html)) !== null) list.push(match[1])\<close> with a
  global regex: the leftmost match from the current position, then on from the end of
  that match. A match of the empty string would leave \<^verbatim>\<open>lastIndex\<close> where it is and
  the loop would never end; that is the value \<open>None\<close>.
\<close>

function exec_all :: "item list \<Rightarrow> string \<Rightarrow> string list option" where
  "exec_all re s =
     (case rmatch re s [] of
        Some (cap, rest) \<Rightarrow>
          (if length rest < length s then map_option ((#) cap) (exec_all re rest) else None)
      | None \<Rightarrow> (case s of [] \<Rightarrow> Some [] | x # xs \<Rightarrow> exec_all re xs))"
  by pat_completeness auto
termination
  by (relation "measure (\<lambda>(re, s). length s)") auto

text \<open>
  \<^verbatim>\<open>text.replace(regex, f)\<close> with a global regex: every match, leftmost first, is
  replaced by what \<open>f\<close> makes of the matched text and of group 1. After a match of the
  empty string the search moves on by one character.
\<close>

function replace_all :: "item list \<Rightarrow> (string \<Rightarrow> string \<Rightarrow> string) \<Rightarrow> string \<Rightarrow> string" where
  "replace_all re f s =
     (case rmatch re s [] of
        Some (cap, rest) \<Rightarrow>
          (if length rest < length s
           then f (take (length s - length rest) s) cap @ replace_all re f rest
           else (case s of [] \<Rightarrow> f [] cap | x # xs \<Rightarrow> f [] cap @ x # replace_all re f xs))
      | None \<Rightarrow> (case s of [] \<Rightarrow> [] | x # xs \<Rightarrow> x # replace_all re f xs))"
  by pat_completeness auto
termination
  by (relation "measure (\<lambda>(re, f, s). length s)") auto

text \<open>\<^verbatim>\<open>s.includes(sub)\<close> and \<^verbatim>\<open>s.startsWith(p)\<close>.\<close>

definition startsWith :: "string \<Rightarrow> string \<Rightarrow> bool" where
  "startsWith s p = (take (length p) s = p)"

fun includes_str :: "string \<Rightarrow> string \<Rightarrow> bool" where
  "includes_str [] sub = (sub = [])"
| "includes_str (x # xs) sub = (startsWith (x # xs) sub \<or> includes_str xs sub)"

subsection \<open>parseHtml\<close>

text \<open>
  \<^verbatim>\<open>/<script[^>]*src="([^"]+)"[^>]*><\/script>/g\<close> and
  \<^verbatim>\<open>/<link[^>]*rel="stylesheet"[^>]*href="([^"]+)"[^>]*>/g\<close>.
\<close>

definition scriptRegex :: "item list" where
  \<open>scriptRegex =
     [Lit ''<script'', Star False (NotIn ''>''), Lit ''src="'',
      One True (NotIn ''"''), Star True (NotIn ''"''), Lit ''"'',
      Star False (NotIn ''>''), Lit ''></script>'']\<close>

definition styleRegex :: "item list" where
  \<open>styleRegex =
     [Lit ''<link'', Star False (NotIn ''>''), Lit ''rel="stylesheet"'',
      Star False (NotIn ''>''), Lit ''href="'',
      One True (NotIn ''"''), Star True (NotIn ''"''), Lit ''"'',
      Star False (NotIn ''>''), Lit ''>'']\<close>

record parsed =
  scripts :: "string list"
  styles :: "string list"
  htmlContent :: string

definition parseHtml :: "string \<Rightarrow> parsed option" where
  "parseHtml html =
     (case exec_all scriptRegex html of
        None \<Rightarrow> None
      | Some scs \<Rightarrow>
          (case exec_all styleRegex html of
             None \<Rightarrow> None
           | Some sts \<Rightarrow>
               Some \<lparr>scripts = scs, styles = sts,
                     htmlContent =
                       replace_all styleRegex (\<lambda>m c. [])
                         (replace_all scriptRegex (\<lambda>m c. []) html)\<rparr>))"

subsection \<open>Entry documents built from tags\<close>














subsection \<open>parseHTML of the tutorial text\<close>

text \<open>
  The repository also holds a tutorial text that carries an earlier sketch of the
  framework (\<^verbatim>\<open>mini-qiankun.js\<close>). Its \<^verbatim>\<open>parseHTML(html, baseUrl)\<close> uses four patterns, all with the flags
  \<^verbatim>\<open>gi\<close>:
  \<^verbatim>\<open>/<script[^>]*src=["']([^"']+)["'][^>]*><\/script>/\<close>,
  \<^verbatim>\<open>/<script[^>]*>([\s\S]*?)<\/script>/\<close>,
  \<^verbatim>\<open>/<link[^>]+rel=["']stylesheet["'][^>]*href=["']([^"']+)["'][^>]*>/\<close> and
  \<^verbatim>\<open>/<style[^>]*>([\s\S]*?)<\/style>/\<close>.
  It pushes the external addresses first, each resolved by the browser's
  \<^verbatim>\<open>new URL(u, baseUrl).href\<close>, and then an object for each match of the inline
  pattern. The browser's resolution is given from outside: \<open>resolve u baseUrl\<close> is the
  absolute address, and \<open>None\<close> when \<^verbatim>\<open>new URL\<close> raises a \<^verbatim>\<open>TypeError\<close>, as it does when
  \<open>baseUrl\<close> is not an absolute address and \<open>u\<close> is not one either. The exception is not
  caught in \<^verbatim>\<open>parseHTML\<close>: it ends the call at the first address that raises.
\<close>

datatype asset = Url string | InlineAsset string

datatype parse_result = Raised | Parsed "asset list" "asset list"

definition quotes :: "char list" where
  \<open>quotes = [CHR ''"'', CHR 0x27]\<close>

definition scriptRegexT :: "item list" where
  \<open>scriptRegexT =
     [LitI ''<script'', Star False (NotIn ''>''), LitI ''src='', One False (In quotes),
      One True (NotIn quotes), Star True (NotIn quotes), One False (In quotes),
      Star False (NotIn ''>''), LitI ''></script>'']\<close>

definition inlineScriptRegex :: "item list" where
  "inlineScriptRegex =
     [LitI ''<script'', Star False (NotIn ''>''), Lit ''>'', Lazy True (NotIn []),
      LitI ''</script>'']"

definition styleRegexT :: "item list" where
  \<open>styleRegexT =
     [LitI ''<link'', One False (NotIn ''>''), Star False (NotIn ''>''), LitI ''rel='',
      One False (In quotes), LitI ''stylesheet'', One False (In quotes),
      Star False (NotIn ''>''), LitI ''href='', One False (In quotes),
      One True (NotIn quotes), Star True (NotIn quotes), One False (In quotes),
      Star False (NotIn ''>''), Lit ''>'']\<close>

definition inlineStyleRegex :: "item list" where
  "inlineStyleRegex =
     [LitI ''<style'', Star False (NotIn ''>''), Lit ''>'', Lazy True (NotIn []),
      LitI ''</style>'']"

text \<open>
  The addresses of a loop, resolved one after the other: \<open>None\<close> when one of them raises.
\<close>

fun resolve_all :: "(string \<Rightarrow> string \<Rightarrow> string option) \<Rightarrow> string \<Rightarrow> string list \<Rightarrow> asset list option"
where
  "resolve_all resolve baseUrl [] = Some []"
| "resolve_all resolve baseUrl (u # us) =
     (case resolve u baseUrl of
        None \<Rightarrow> None
      | Some a \<Rightarrow> map_option ((#) (Url a)) (resolve_all resolve baseUrl us))"

definition parseHTML ::
  "(string \<Rightarrow> string \<Rightarrow> string option) \<Rightarrow> string \<Rightarrow> string \<Rightarrow> parse_result option"
where
  "parseHTML resolve html baseUrl =
     (case exec_all scriptRegexT html of
        None \<Rightarrow> None
      | Some ext \<Rightarrow>
          (case resolve_all resolve baseUrl ext of
             None \<Rightarrow> Some Raised
           | Some exts \<Rightarrow>
               (case exec_all inlineScriptRegex html of
                  None \<Rightarrow> None
                | Some inl \<Rightarrow>
                    (case exec_all styleRegexT html of
                       None \<Rightarrow> None
                     | Some sext \<Rightarrow>
                         (case resolve_all resolve baseUrl sext of
                            None \<Rightarrow> Some Raised
                          | Some sexts \<Rightarrow>
                              (case exec_all inlineStyleRegex html of
                                 None \<Rightarrow> None
                               | Some sinl \<Rightarrow>
                                   Some (Parsed (exts @ map InlineAsset inl)
                                                (sexts @ map InlineAsset sinl))))))))"

subsection \<open>The selector rewriting of loadStyles\<close>

text \<open>
  \<^verbatim>\<open>cssText.replace(/([^{]+)({)/g, (match, selector) => ...)\<close>: the callback reads the
  matched text and group 1 only, so the second group is an ordinary literal here.
\<close>

definition cssRegex :: "item list" where
  "cssRegex = [One True (NotIn ''{''), Star True (NotIn ''{''), Lit ''{'']"

definition scopeRule :: "string \<Rightarrow> string \<Rightarrow> string \<Rightarrow> string" where
  "scopeRule appName m selector =
     (if includes_str selector ''@media'' \<or> includes_str selector ''@keyframes'' then m
      else ''.micro-app-'' @ appName @ '' '' @ selector @ '' {'')"

definition scopedCss :: "string \<Rightarrow> string \<Rightarrow> string" where
  "scopedCss appName cssText = replace_all cssRegex (scopeRule appName) cssText"


section \<open>Values, the sandbox and its proxy handlers\<close>

text \<open>
  JavaScript values as far as the framework tells them apart: it tests
  \<^verbatim>\<open>typeof value === 'function'\<close> and \<^verbatim>\<open>value && typeof value === 'object'\<close>, and it
  calls the functions \<^verbatim>\<open>mount\<close> and \<^verbatim>\<open>unmount\<close> of an application. A function value
  carries a label and what a call of it does: return, raise, or return a promise
  that is still pending when the call returns. This section keeps the sandbox as the
  orchestrator needs it, to find the hooks: the private object of each application
  name and \<^verbatim>\<open>sandboxWindow\<close>, each as the finite map of its own properties. Names that
  JavaScript resolves through a prototype, the identity of objects and the proxies
  are the subject of the section on the sandbox at the level of objects.
\<close>

datatype call_result = Returns | Raises | Pends

datatype jsval =
  Undefined | Null | Bool bool | Num int | Str string | Obj nat | Fun string call_result

fun is_function :: "jsval \<Rightarrow> bool" where
  "is_function (Fun f r) = True"
| "is_function v = False"

type_synonym store = "string \<Rightarrow> jsval option"

text \<open>
  \<^verbatim>\<open>createSandbox\<close>: \<open>global\<close> holds one private object per application name,
  \<open>sandboxWindow\<close> is the copy \<^verbatim>\<open>{...window, ...}\<close> that every proxy of the sandbox
  has as its target.
\<close>

record sandbox =
  global :: "string \<Rightarrow> store option"
  sandboxWindow :: store

definition createSandbox :: "store \<Rightarrow> sandbox" where
  "createSandbox w =
     \<lparr>global = Map.empty,
      sandboxWindow = w(''__MICRO_APP_ENVIRONMENT__'' \<mapsto> Bool True,
                        ''__MICRO_APP_NAME__'' \<mapsto> Null,
                        ''setGlobalState'' \<mapsto> Fun ''setGlobalState'' Returns,
                        ''getGlobalState'' \<mapsto> Fun ''getGlobalState'' Returns)\<rparr>"

text \<open>
  A proxy of \<open>sandboxWindow\<close> is made for an application name, or for \<^verbatim>\<open>null\<close>
  (\<^verbatim>\<open>sandboxProxy\<close>). As a property key of \<open>global\<close> the name \<^verbatim>\<open>null\<close> is the string
  \<^verbatim>\<open>"null"\<close>; as a condition, \<^verbatim>\<open>null\<close> and the empty string are false.
\<close>

fun key_of :: "string option \<Rightarrow> string" where
  "key_of None = ''null''"
| "key_of (Some n) = n"

fun truthy_name :: "string option \<Rightarrow> bool" where
  "truthy_name None = False"
| "truthy_name (Some n) = (n \<noteq> [])"

text \<open>
  The \<^verbatim>\<open>set\<close> handler of \<^verbatim>\<open>createProxy(sandboxWindow, appName)\<close>, on own properties.
\<close>

definition handler_set :: "string option \<Rightarrow> string \<Rightarrow> jsval \<Rightarrow> sandbox \<Rightarrow> sandbox" where
  "handler_set appName prop v sb =
     (if truthy_name appName \<and> \<not> is_function v
      then sb\<lparr>global := (global sb)(key_of appName \<mapsto>
                (case global sb (key_of appName) of
                   None \<Rightarrow> Map.empty(prop \<mapsto> v)
                 | Some st \<Rightarrow> st(prop \<mapsto> v)))\<rparr>
      else sb\<lparr>sandboxWindow := (sandboxWindow sb)(prop \<mapsto> v)\<rparr>)"

text \<open>
  Application code is JavaScript text run by \<^verbatim>\<open>new Function\<close>. Of what it can do, the
  model keeps the statements that touch the sandbox: an assignment
  \<^verbatim>\<open>window[p] = v\<close> through the proxy it is handed, a write \<^verbatim>\<open>sandbox.global[name][p] = v\<close>
  that reaches the script-level binding \<^verbatim>\<open>sandbox\<close> itself (the only way a function such
  as \<^verbatim>\<open>mount\<close> gets into the private object, since the \<^verbatim>\<open>set\<close> handler sends functions
  to the target), and raising an exception.
\<close>

datatype stmt = Assign string jsval | StoreSet string jsval | Raise

fun run_code :: "string \<Rightarrow> stmt list \<Rightarrow> sandbox \<Rightarrow> sandbox" where
  "run_code n [] sb = sb"
| "run_code n (Assign p v # r) sb = run_code n r (handler_set (Some n) p v sb)"
| "run_code n (StoreSet p v # r) sb =
     (case global sb n of
        None \<Rightarrow> sb
      | Some st \<Rightarrow> run_code n r (sb\<lparr>global := (global sb)(n \<mapsto> st(p \<mapsto> v))\<rparr>))"
| "run_code n (Raise # r) sb = sb"

text \<open>
  \<^verbatim>\<open>sandbox.exec(code, appName)\<close>: an exception of the code ends the code and is caught.
\<close>

definition exec :: "stmt list \<Rightarrow> string \<Rightarrow> sandbox \<Rightarrow> sandbox" where
  "exec code appName sb =
     run_code appName code
       (sb\<lparr>sandboxWindow := (sandboxWindow sb)(''__MICRO_APP_NAME__'' \<mapsto> Str appName)\<rparr>)"

text \<open>
  Code that writes through the proxy only, and a sandbox whose private objects hold no
  function.
\<close>

fun through_proxy :: "stmt \<Rightarrow> bool" where
  "through_proxy (StoreSet p v) = False"
| "through_proxy st = True"

definition function_free :: "sandbox \<Rightarrow> bool" where
  "function_free sb =
     (\<forall>n st p v. global sb n = Some st \<and> st p = Some v \<longrightarrow> \<not> is_function v)"

section \<open>The registry, the document and the orchestrator\<close>

record app =
  name :: string
  entry :: string
  container :: string
  activeRule :: string

text \<open>
  The document as the framework uses it: \<^verbatim>\<open>document.querySelector(app.container)\<close>
  finds a container element or nothing, a container has a list of children
  (\<^verbatim>\<open>innerHTML = ''\<close> empties it, \<^verbatim>\<open>appendChild\<close> adds at the end), and
  \<^verbatim>\<open>document.head\<close> collects style elements. Containers are keyed by their selector
  and are elements of the host page. The model does not follow a container that lies
  inside another container or inside the content of an application, which
  \<^verbatim>\<open>innerHTML = ''\<close> of the enclosing container would remove.
\<close>

record element =
  el_id :: string
  className :: string
  innerHTML :: string

record style_el =
  data_app :: string
  textContent :: string

fun set_children ::
  "string \<Rightarrow> element list \<Rightarrow> (string \<times> element list) list \<Rightarrow> (string \<times> element list) list"
where
  "set_children sel els [] = []"
| "set_children sel els ((k, v) # r) =
     (if k = sel then (k, els) # r else (k, v) # set_children sel els r)"

text \<open>
  What can be observed of a run is written to \<open>trace\<close>: each entry to \<^verbatim>\<open>reroute\<close> with
  the path it reads, each \<^verbatim>\<open>fetch\<close> with its address, each call of a hook of an
  application (\<open>Call name hook\<close>) and the end of the hook's work (\<open>Done name hook\<close>),
  which for a hook that returns a pending promise is not within the call.
\<close>

datatype event = Reroute string | Fetch string | Call string string | Done string string

text \<open>
  \<^verbatim>\<open>window.history.pushState\<close> and \<^verbatim>\<open>replaceState\<close> are the browser's functions or
  wrappers that \<^verbatim>\<open>patchRouter\<close> has put around the function found there.
\<close>

datatype histfn = Native | Patched histfn

text \<open>
  The module's variables \<^verbatim>\<open>apps\<close>, \<^verbatim>\<open>activeApp\<close> and \<^verbatim>\<open>sandbox\<close>, and the parts of the
  host page they work on. \<open>window\<close> is the host's own global object, \<open>popstate\<close> counts
  the listeners registered for that event, and \<open>pending\<close> lists the calls of the
  asynchronous \<^verbatim>\<open>loadAndMountApp\<close> that wait at \<^verbatim>\<open>await fetch(app.entry)\<close>.
  \<^verbatim>\<open>reroute\<close> runs only once \<^verbatim>\<open>start\<close> has assigned \<^verbatim>\<open>sandbox\<close>, so the variable
  always holds a sandbox here.
\<close>

record state =
  apps :: "app list"
  activeApp :: "app option"
  sandbox :: sandbox
  window :: store
  pathname :: string
  pushState :: histfn
  replaceState :: histfn
  popstate :: nat
  containers :: "(string \<times> element list) list"
  head :: "style_el list"
  pending :: "app list"
  trace :: "event list"

text \<open>
  The network and the meaning of script texts are given from outside: \<open>fetch env url\<close>
  is the body of the response, \<open>None\<close> when the request fails; \<open>script env text\<close> is the
  code that \<^verbatim>\<open>new Function(..., text)\<close> runs.
\<close>

record env =
  fetch :: "string \<Rightarrow> string option"
  script :: "string \<Rightarrow> stmt list"

text \<open>A call either returns or leaves by an exception; both carry the state reached.\<close>

datatype 'a outcome = Normal 'a | Thrown 'a

fun state_of :: "'a outcome \<Rightarrow> 'a" where
  "state_of (Normal s) = s"
| "state_of (Thrown s) = s"

definition registerMicroApps :: "app \<Rightarrow> state \<Rightarrow> state" where
  "registerMicroApps a s = s\<lparr>apps := apps s @ [a]\<rparr>"

definition log :: "event list \<Rightarrow> state \<Rightarrow> state" where
  "log evs s = s\<lparr>trace := trace s @ evs\<rparr>"

text \<open>
  \<^verbatim>\<open>if (sandbox.global[n] && typeof sandbox.global[n].h === 'function') sandbox.global[n].h(...)\<close>.
  The value the hook returns is dropped by both callers.
\<close>

definition hook_of :: "sandbox \<Rightarrow> string \<Rightarrow> string \<Rightarrow> call_result option" where
  "hook_of sb n h =
     (case global sb n of
        None \<Rightarrow> None
      | Some st \<Rightarrow> (case st h of Some (Fun f r) \<Rightarrow> Some r | _ \<Rightarrow> None))"

definition call_hook :: "string \<Rightarrow> string \<Rightarrow> state \<Rightarrow> state outcome" where
  "call_hook n h s =
     (case hook_of (sandbox s) n h of
        None \<Rightarrow> Normal s
      | Some Returns \<Rightarrow> Normal (log [Call n h, Done n h] s)
      | Some Pends \<Rightarrow> Normal (log [Call n h] s)
      | Some Raises \<Rightarrow> Thrown (log [Call n h] s))"

definition unmountApp :: "app \<Rightarrow> state \<Rightarrow> state outcome" where
  "unmountApp a s =
     (case map_of (containers s) (container a) of
        None \<Rightarrow> Normal (s\<lparr>activeApp := None\<rparr>)
      | Some els \<Rightarrow>
          (case call_hook (name a) ''unmount'' s of
             Thrown t \<Rightarrow> Thrown t
           | Normal s1 \<Rightarrow>
               Normal (s1\<lparr>containers := set_children (container a) [] (containers s1),
                          sandbox := (sandbox s1)\<lparr>global := (global (sandbox s1))(name a := None)\<rparr>,
                          activeApp := None\<rparr>)))"

text \<open>
  \<^verbatim>\<open>loadAndMountApp\<close> up to its first \<^verbatim>\<open>await\<close>: the request for the entry document is
  sent and the call is suspended.
\<close>

definition loadAndMountApp :: "app \<Rightarrow> state \<Rightarrow> state" where
  "loadAndMountApp a s =
     (case map_of (containers s) (container a) of
        None \<Rightarrow> s
      | Some els \<Rightarrow>
          s\<lparr>containers := set_children (container a) [] (containers s),
            pending := pending s @ [a],
            trace := trace s @ [Fetch (entry a)]\<rparr>)"

fun loadStyles :: "env \<Rightarrow> string list \<Rightarrow> string \<Rightarrow> state \<Rightarrow> state" where
  "loadStyles e [] appName s = s"
| "loadStyles e (styleUrl # r) appName s =
     loadStyles e r appName
       (case fetch e styleUrl of
          None \<Rightarrow> log [Fetch styleUrl] s
        | Some cssText \<Rightarrow>
            (log [Fetch styleUrl] s)
              \<lparr>head := head s @ [\<lparr>data_app = appName, textContent = scopedCss appName cssText\<rparr>]\<rparr>)"

fun run_scripts :: "env \<Rightarrow> string list \<Rightarrow> string \<Rightarrow> state \<Rightarrow> state" where
  "run_scripts e [] appName s = s"
| "run_scripts e (scriptUrl # r) appName s =
     run_scripts e r appName
       (case fetch e scriptUrl of
          None \<Rightarrow> log [Fetch scriptUrl] s
        | Some scriptText \<Rightarrow>
            (log [Fetch scriptUrl] s)\<lparr>sandbox := exec (script e scriptText) appName (sandbox s)\<rparr>)"

definition executeScripts :: "env \<Rightarrow> string list \<Rightarrow> app \<Rightarrow> state \<Rightarrow> state" where
  "executeScripts e scs a s =
     run_scripts e scs (name a)
       (s\<lparr>sandbox := (sandbox s)\<lparr>global := (global (sandbox s))(name a \<mapsto> Map.empty)\<rparr>\<rparr>)"

definition appElement :: "app \<Rightarrow> string \<Rightarrow> element" where
  "appElement a html =
     \<lparr>el_id = ''app-'' @ name a,
      className = ''micro-app micro-app-'' @ name a,
      innerHTML = html\<rparr>"

definition appendChild :: "string \<Rightarrow> element \<Rightarrow> state \<Rightarrow> state" where
  "appendChild sel el s =
     (case map_of (containers s) sel of
        None \<Rightarrow> s
      | Some els \<Rightarrow> s\<lparr>containers := set_children sel (els @ [el]) (containers s)\<rparr>)"

text \<open>
  The rest of \<^verbatim>\<open>loadAndMountApp\<close>, run when the request for the entry document has
  settled. Every failure inside is caught by the \<^verbatim>\<open>try\<close> of the function, also an
  exception of the \<^verbatim>\<open>mount\<close> hook. The later waits of this part (the requests for
  the style sheets and the scripts) are not split into steps of their own.
\<close>

definition loadAndMountApp_rest :: "env \<Rightarrow> app \<Rightarrow> state \<Rightarrow> state" where
  "loadAndMountApp_rest e a s =
     (case fetch e (entry a) of
        None \<Rightarrow> s
      | Some html \<Rightarrow>
          (case parseHtml html of
             None \<Rightarrow> s
           | Some p \<Rightarrow>
               state_of (call_hook (name a) ''mount''
                 (executeScripts e (scripts p) a
                   (loadStyles e (styles p) (name a)
                     (appendChild (container a) (appElement a (htmlContent p)) s))))))"

definition matchedApp :: "state \<Rightarrow> app option" where
  "matchedApp s = find (\<lambda>a. startsWith (pathname s) (activeRule a)) (apps s)"

definition reroute :: "state \<Rightarrow> state outcome" where
  "reroute s =
     (let s0 = log [Reroute (pathname s)] s in
      case matchedApp s of
        None \<Rightarrow> Normal s0
      | Some m \<Rightarrow>
          (case activeApp s of
             None \<Rightarrow> Normal (loadAndMountApp m (s0\<lparr>activeApp := Some m\<rparr>))
           | Some a \<Rightarrow>
               if name a = name m then Normal s0
               else (case unmountApp a s0 of
                       Thrown t \<Rightarrow> Thrown t
                     | Normal s1 \<Rightarrow> Normal (loadAndMountApp m (s1\<lparr>activeApp := Some m\<rparr>)))))"

subsection \<open>start, patchRouter and the history functions\<close>

definition patchRouter :: "state \<Rightarrow> state" where
  "patchRouter s =
     s\<lparr>pushState := Patched (pushState s),
       replaceState := Patched (replaceState s),
       popstate := Suc (popstate s)\<rparr>"

definition start :: "state \<Rightarrow> state outcome" where
  "start s = reroute (patchRouter (s\<lparr>sandbox := createSandbox (window s)\<rparr>))"

text \<open>
  Calling the function stored at \<^verbatim>\<open>history.pushState\<close> or \<^verbatim>\<open>history.replaceState\<close> with
  an address. What the browser's own function does is given from outside: \<open>b loc u\<close> is
  the path of the location after the browser has accepted the address \<open>u\<close> while the
  location had the path \<open>loc\<close>, and \<open>None\<close> when the browser raises an exception instead
  (as it does for an address of another origin). A wrapper calls the function it wraps
  and then \<^verbatim>\<open>reroute\<close>. An exception leaves through every wrapper around it.
\<close>

type_synonym browser = "string \<Rightarrow> string \<Rightarrow> string option"

fun call_history :: "browser \<Rightarrow> histfn \<Rightarrow> string \<Rightarrow> state \<Rightarrow> state outcome" where
  "call_history b Native u s =
     (case b (pathname s) u of
        None \<Rightarrow> Thrown s
      | Some q \<Rightarrow> Normal (s\<lparr>pathname := q\<rparr>))"
| "call_history b (Patched f) u s =
     (case call_history b f u s of
        Thrown t \<Rightarrow> Thrown t
      | Normal s1 \<Rightarrow> reroute s1)"

text \<open>\<^verbatim>\<open>window.navigateTo(path)\<close> calls \<^verbatim>\<open>history.pushState(null, '', path)\<close>.\<close>

definition navigateTo :: "browser \<Rightarrow> string \<Rightarrow> state \<Rightarrow> state outcome" where
  "navigateTo b u s = call_history b (pushState s) u s"

definition replaceTo :: "browser \<Rightarrow> string \<Rightarrow> state \<Rightarrow> state outcome" where
  "replaceTo b u s = call_history b (replaceState s) u s"

primrec start_times :: "nat \<Rightarrow> state \<Rightarrow> state" where
  "start_times 0 s = s"
| "start_times (Suc n) s = state_of (start (start_times n s))"

fun reroutes :: "event list \<Rightarrow> nat" where
  "reroutes [] = 0"
| "reroutes (Reroute p # r) = Suc (reroutes r)"
| "reroutes (e # r) = reroutes r"

text \<open>The number of notifications that a call made in the state \<open>s\<close> has caused.\<close>

definition notifications :: "state \<Rightarrow> state outcome \<Rightarrow> nat" where
  "notifications s r = reroutes (trace (state_of r)) - reroutes (trace s)"

subsection \<open>Runs\<close>

text \<open>
  One route-change notification for the path \<open>p\<close>, the settling of a pending load, and
  the settling of a promise that a hook has returned. A run is a list of such actions;
  requests may settle in any order and a notification may come while loads are
  pending.
\<close>

definition notify :: "string \<Rightarrow> state \<Rightarrow> state" where
  "notify p s = state_of (reroute (s\<lparr>pathname := p\<rparr>))"

datatype action = Navigate string | Settle nat | Finish string string

fun step :: "env \<Rightarrow> action \<Rightarrow> state \<Rightarrow> state" where
  "step e (Navigate p) s = notify p s"
| "step e (Settle i) s =
     (if i < length (pending s)
      then loadAndMountApp_rest e (pending s ! i) (s\<lparr>pending := take i (pending s) @ drop (Suc i) (pending s)\<rparr>)
      else s)"
| "step e (Finish n h) s = log [Done n h] s"

fun run :: "env \<Rightarrow> action list \<Rightarrow> state \<Rightarrow> state" where
  "run e [] s = s"
| "run e (a # as) s = run e as (step e a s)"

text \<open>A notification whose load settles before anything else happens.\<close>

definition settle_all :: "env \<Rightarrow> state \<Rightarrow> state" where
  "settle_all e s = foldl (\<lambda>t a. loadAndMountApp_rest e a t) (s\<lparr>pending := []\<rparr>) (pending s)"

definition navigate :: "env \<Rightarrow> string \<Rightarrow> state \<Rightarrow> state" where
  "navigate e p s = settle_all e (notify p s)"

text \<open>The application elements in the document.\<close>

definition mounted :: "state \<Rightarrow> element list" where
  "mounted s = concat (map snd (containers s))"

subsection \<open>Observations on runs\<close>

text \<open>
  The notifications of a list of paths, each with its load settled before the next.
\<close>

fun navigations :: "env \<Rightarrow> string list \<Rightarrow> state \<Rightarrow> state" where
  "navigations e [] s = s"
| "navigations e (p # ps) s = navigations e ps (navigate e p s)"

text \<open>
  No load is pending, and the document holds no application element, or exactly one:
  the element of the active application, in the container of that application.
\<close>

definition single_active :: "state \<Rightarrow> bool" where
  "single_active s =
     (pending s = [] \<and>
      (case mounted s of
         [] \<Rightarrow> True
       | [el] \<Rightarrow>
           (case activeApp s of
              None \<Rightarrow> False
            | Some a \<Rightarrow>
                map_of (containers s) (container a) = Some [el] \<and> el_id el = ''app-'' @ name a)
       | el # el' # els \<Rightarrow> False))"

fun returned :: "'a outcome \<Rightarrow> bool" where
  "returned (Normal s) = True"
| "returned (Thrown s) = False"

text \<open>The names of the applications whose hook \<open>h\<close> was called, in the order of the calls.\<close>

fun hook_calls :: "string \<Rightarrow> event list \<Rightarrow> string list" where
  "hook_calls h [] = []"
| "hook_calls h (Call n h' # r) = (if h' = h then n # hook_calls h r else hook_calls h r)"
| "hook_calls h (ev # r) = hook_calls h r"

text \<open>
  What \<^verbatim>\<open>unmountApp\<close> writes to the trace, and the events that belong to the load of
  the application \<open>n\<close>: requests, and the call of its \<^verbatim>\<open>mount\<close> hook.
\<close>

definition unmount_events :: "app \<Rightarrow> state \<Rightarrow> event list" where
  "unmount_events a s =
     (case map_of (containers s) (container a) of
        None \<Rightarrow> []
      | Some els \<Rightarrow>
          (case hook_of (sandbox s) (name a) ''unmount'' of
             Some Returns \<Rightarrow> [Call (name a) ''unmount'', Done (name a) ''unmount'']
           | Some r \<Rightarrow> [Call (name a) ''unmount'']
           | None \<Rightarrow> []))"

fun load_event :: "string \<Rightarrow> event \<Rightarrow> bool" where
  "load_event n (Fetch u) = True"
| "load_event n (Call n' h) = (n' = n \<and> h = ''mount'')"
| "load_event n (Done n' h) = (n' = n \<and> h = ''mount'')"
| "load_event n (Reroute p) = False"

subsection \<open>A host page with two applications\<close>

text \<open>
  The page of the spec's scenario: two applications \<open>a\<close> and \<open>b\<close> that share the
  container \<^verbatim>\<open>#c\<close>. The entry document of each names one script; the script installs
  a \<^verbatim>\<open>mount\<close> and an \<^verbatim>\<open>unmount\<close> hook. The \<^verbatim>\<open>unmount\<close> hook of \<open>a\<close> is asynchronous: it
  returns a promise that is pending when the call returns.
\<close>

definition appA :: app where
  "appA = \<lparr>name = ''a'', entry = ''http://x/a'', container = ''#c'', activeRule = ''/a''\<rparr>"

definition appB :: app where
  "appB = \<lparr>name = ''b'', entry = ''http://x/b'', container = ''#c'', activeRule = ''/b''\<rparr>"

definition init :: state where
  "init =
     \<lparr>apps = [], activeApp = None, sandbox = createSandbox Map.empty, window = Map.empty,
      pathname = ''/'', pushState = Native, replaceState = Native, popstate = 0,
      containers = [(''#c'', [])], head = [], pending = [], trace = []\<rparr>"

definition page :: "string \<Rightarrow> string" where
  \<open>page n = ''<div>'' @ n @ ''</div><script src="'' @ n @ ''.js"></script>''\<close>

definition hooks :: "call_result \<Rightarrow> stmt list" where
  "hooks r =
     [StoreSet ''mount'' (Fun ''mount'' Returns), StoreSet ''unmount'' (Fun ''unmount'' r)]"

definition net :: env where
  "net =
     \<lparr>fetch = (\<lambda>u. if u = ''http://x/a'' then Some (page ''a'')
                   else if u = ''http://x/b'' then Some (page ''b'')
                   else if u = ''a.js'' then Some ''A''
                   else if u = ''b.js'' then Some ''B''
                   else None),
      script = (\<lambda>t. if t = ''A'' then hooks Pends else hooks Returns)\<rparr>"

definition registered :: state where
  "registered = registerMicroApps appB (registerMicroApps appA init)"

definition started :: state where
  "started = state_of (start registered)"

definition atA :: state where
  "atA = navigate net ''/a'' started"

text \<open>
  The browser of the page accepts an absolute path and makes it the path of the
  location; every other address, such as one of another origin, it refuses.
\<close>

definition same_origin :: browser where
  "same_origin loc u = (if startsWith u ''/'' \<and> \<not> startsWith u ''//'' then Some u else None)"

text \<open>
  The same two applications with scripts whose \<^verbatim>\<open>unmount\<close> hook raises, on a page where
  \<^verbatim>\<open>start\<close> has been called twice and the application \<open>a\<close> has been loaded.
\<close>

definition netR :: env where
  "netR = net\<lparr>script := (\<lambda>t. hooks Raises)\<rparr>"

definition twiceR :: state where
  "twiceR = navigate netR ''/a'' (start_times 2 registered)"

section \<open>The sandbox at the level of objects\<close>

text \<open>
  Which objects a write through a proxy reaches depends on what the sandbox record above
  leaves out: an object has an identity, own properties and a prototype; \<^verbatim>\<open>o[k]\<close>,
  \<^verbatim>\<open>k in o\<close> and \<^verbatim>\<open>o[k] = v\<close> look the name up along the prototype chain; and the name
  \<^verbatim>\<open>__proto__\<close> is an accessor of \<^verbatim>\<open>Object.prototype\<close>. This section embeds
  \<^verbatim>\<open>createSandbox\<close> with these. A value is a primitive or a reference to an object; a
  function is an object that can be called. The objects are ordinary ones: extensible,
  with writable data properties, and \<^verbatim>\<open>__proto__\<close> of \<^verbatim>\<open>Object.prototype\<close> is the one
  accessor. Proxies are handed to application code and are not stored as values.
\<close>

datatype ovalue = OUndefined | ONull | OBool bool | ONum int | OStr string | ORef nat

text \<open>
  An object: its own properties, its prototype (\<open>None\<close> for \<^verbatim>\<open>null\<close>) and, for a function,
  a label and what a call does. The heap lists the objects; a reference is an index.
  The object at address 0 is \<^verbatim>\<open>Object.prototype\<close>, the object at address 1 is
  \<^verbatim>\<open>Function.prototype\<close>. \<open>plain\<close> is the object that \<^verbatim>\<open>{}\<close> creates. An address outside
  the heap stands for an object without properties.
\<close>

record jsobject =
  props :: "string \<Rightarrow> ovalue option"
  proto :: "nat option"
  fn :: "(string \<times> call_result) option"

type_synonym heap = "jsobject list"

definition plain :: jsobject where
  "plain = \<lparr>props = Map.empty, proto = Some 0, fn = None\<rparr>"

definition obj_at :: "heap \<Rightarrow> nat \<Rightarrow> jsobject" where
  "obj_at h a = (if a < length h then h ! a else plain)"

text \<open>
  The conditions of the handlers: a value as a condition,
  \<^verbatim>\<open>typeof value === 'function'\<close>, and \<^verbatim>\<open>value && typeof value === 'object'\<close>.
\<close>

fun truthy :: "ovalue \<Rightarrow> bool" where
  "truthy OUndefined = False"
| "truthy ONull = False"
| "truthy (OBool b) = b"
| "truthy (ONum n) = (n \<noteq> 0)"
| "truthy (OStr s) = (s \<noteq> [])"
| "truthy (ORef a) = True"

fun typeof_function :: "heap \<Rightarrow> ovalue \<Rightarrow> bool" where
  "typeof_function h (ORef a) = (fn (obj_at h a) \<noteq> None)"
| "typeof_function h v = False"

fun typeof_object :: "heap \<Rightarrow> ovalue \<Rightarrow> bool" where
  "typeof_object h (ORef a) = (fn (obj_at h a) = None)"
| "typeof_object h v = False"

text \<open>
  \<open>protos h a\<close> is the object \<open>a\<close> followed by its prototypes, in the order of lookup.
  JavaScript keeps prototype chains free of cycles, so a chain is not longer than the
  heap; \<open>grounded h a\<close> says so of the chain of \<open>a\<close>: it lies in the heap and ends at an
  object without prototype.
\<close>

fun chain :: "nat \<Rightarrow> heap \<Rightarrow> nat \<Rightarrow> nat list" where
  "chain 0 h a = []"
| "chain (Suc n) h a =
     a # (case proto (obj_at h a) of None \<Rightarrow> [] | Some p \<Rightarrow> chain n h p)"

definition protos :: "heap \<Rightarrow> nat \<Rightarrow> nat list" where
  "protos h a = chain (length h) h a"

definition grounded :: "heap \<Rightarrow> nat \<Rightarrow> bool" where
  "grounded h a =
     (protos h a \<noteq> [] \<and> list_all (\<lambda>b. b < length h) (protos h a) \<and>
      proto (obj_at h (last (protos h a))) = None)"

text \<open>
  What a name is resolved to along a chain: a data property of the first object that
  has one, the accessor \<^verbatim>\<open>__proto__\<close> when the chain reaches \<^verbatim>\<open>Object.prototype\<close> first,
  or nothing.
\<close>

datatype slot = Data ovalue | Accessor | Absent

fun find_slot :: "heap \<Rightarrow> nat list \<Rightarrow> string \<Rightarrow> slot" where
  "find_slot h [] k = Absent"
| "find_slot h (a # as) k =
     (if a = 0 \<and> k = ''__proto__'' then Accessor
      else (case props (obj_at h a) k of
              Some v \<Rightarrow> Data v
            | None \<Rightarrow> find_slot h as k))"

text \<open>\<^verbatim>\<open>k in o\<close> and \<^verbatim>\<open>o[k]\<close>; the getter of \<^verbatim>\<open>__proto__\<close> returns the prototype of \<open>o\<close>.\<close>

definition js_has :: "heap \<Rightarrow> nat \<Rightarrow> string \<Rightarrow> bool" where
  "js_has h a k = (find_slot h (protos h a) k \<noteq> Absent)"

definition js_get :: "heap \<Rightarrow> nat \<Rightarrow> string \<Rightarrow> ovalue" where
  "js_get h a k =
     (case find_slot h (protos h a) k of
        Data v \<Rightarrow> v
      | Accessor \<Rightarrow> (case proto (obj_at h a) of None \<Rightarrow> ONull | Some p \<Rightarrow> ORef p)
      | Absent \<Rightarrow> OUndefined)"

text \<open>
  \<^verbatim>\<open>o[k] = v\<close>. The setter of \<^verbatim>\<open>__proto__\<close> ignores a value that is neither an object
  nor \<^verbatim>\<open>null\<close>; otherwise it changes the prototype of \<open>o\<close>, and raises a \<^verbatim>\<open>TypeError\<close>
  when \<open>o\<close> is \<^verbatim>\<open>Object.prototype\<close>, whose prototype is fixed, or when the change would
  close a cycle. Every other assignment defines or updates an own property of \<open>o\<close>.
\<close>

definition set_prototype :: "heap \<Rightarrow> nat \<Rightarrow> nat option \<Rightarrow> heap outcome" where
  "set_prototype h a p =
     (if proto (obj_at h a) = p then Normal h
      else if a = 0 then Thrown h
      else if (case p of None \<Rightarrow> False | Some q \<Rightarrow> a \<in> set (protos h q)) then Thrown h
      else Normal (h[a := (obj_at h a)\<lparr>proto := p\<rparr>]))"

definition js_set :: "heap \<Rightarrow> nat \<Rightarrow> string \<Rightarrow> ovalue \<Rightarrow> heap outcome" where
  "js_set h a k v =
     (case find_slot h (protos h a) k of
        Accessor \<Rightarrow>
          (case v of
             ORef p \<Rightarrow> set_prototype h a (Some p)
           | ONull \<Rightarrow> set_prototype h a None
           | _ \<Rightarrow> Normal h)
      | _ \<Rightarrow> Normal (h[a := (obj_at h a)\<lparr>props := (props (obj_at h a))(k \<mapsto> v)\<rparr>]))"

text \<open>
  What \<^verbatim>\<open>createSandbox\<close> closes over: the heap, the objects \<^verbatim>\<open>global\<close> and
  \<^verbatim>\<open>sandboxWindow\<close>, and \<^verbatim>\<open>proxyCache\<close>. A proxy is given by its target and the
  application name it was made for; \<^verbatim>\<open>proxyCache\<close> maps a target to the name of the proxy
  stored for it. \<^verbatim>\<open>sandboxProxy\<close> is the proxy of \<^verbatim>\<open>sandboxWindow\<close> made for \<^verbatim>\<open>null\<close>.
\<close>

record realm =
  heap :: heap
  global_at :: nat
  window_at :: nat
  proxyCache :: "(nat \<times> string option) list"

datatype view = Value ovalue | Proxy nat "string option"

datatype getres = Returned view realm | TypeError

fun seen :: "getres \<Rightarrow> view option" where
  "seen (Returned w r) = Some w"
| "seen TypeError = None"

text \<open>\<^verbatim>\<open>createProxy(target, appName)\<close> returns the proxy stored for the target if there is one.\<close>

definition createProxy :: "nat \<Rightarrow> string option \<Rightarrow> realm \<Rightarrow> getres" where
  "createProxy target appName r =
     (case map_of (proxyCache r) target of
        Some n \<Rightarrow> Returned (Proxy target n) r
      | None \<Rightarrow> Returned (Proxy target appName) (r\<lparr>proxyCache := (target, appName) # proxyCache r\<rparr>))"

text \<open>
  The \<^verbatim>\<open>get\<close> handler. \<open>wrap\<close> is
  \<^verbatim>\<open>if (value && typeof value === 'object') return createProxy(value, appName); return value\<close>;
  \<open>through_target\<close> is the handler from \<^verbatim>\<open>const value = target[prop]\<close> on. The test
  \<^verbatim>\<open>prop in global[appName]\<close> raises a \<^verbatim>\<open>TypeError\<close> when \<^verbatim>\<open>global[appName]\<close> is a primitive.
\<close>

definition wrap :: "string option \<Rightarrow> ovalue \<Rightarrow> realm \<Rightarrow> getres" where
  "wrap appName v r =
     (case v of
        ORef a \<Rightarrow> if typeof_object (heap r) v then createProxy a appName r else Returned (Value v) r
      | _ \<Rightarrow> Returned (Value v) r)"

definition through_target :: "nat \<Rightarrow> string option \<Rightarrow> string \<Rightarrow> realm \<Rightarrow> getres" where
  "through_target target appName prop r =
     (let v = js_get (heap r) target prop in
      if prop \<in> set [''window'', ''self'', ''globalThis'']
      then Returned (Proxy (window_at r) None) r
      else if prop \<in> set [''document'', ''location'', ''navigator'', ''history'']
      then Returned (Value v) r
      else wrap appName v r)"

definition proxy_get :: "nat \<Rightarrow> string option \<Rightarrow> string \<Rightarrow> realm \<Rightarrow> getres" where
  "proxy_get target appName prop r =
     (case js_get (heap r) (global_at r) (key_of appName) of
        ORef x \<Rightarrow>
          if js_has (heap r) x prop then wrap appName (js_get (heap r) x prop) r
          else through_target target appName prop r
      | v \<Rightarrow> if truthy v then TypeError else through_target target appName prop r)"

text \<open>
  The \<^verbatim>\<open>set\<close> handler. In \<^verbatim>\<open>global[appName][prop] = value\<close> the object is read from
  \<^verbatim>\<open>global\<close> again; the assignment raises when it is \<^verbatim>\<open>undefined\<close> or \<^verbatim>\<open>null\<close> and does
  nothing when it is another primitive (the code is not strict).
\<close>

definition proxy_set :: "nat \<Rightarrow> string option \<Rightarrow> string \<Rightarrow> ovalue \<Rightarrow> realm \<Rightarrow> realm outcome" where
  "proxy_set target appName prop v r =
     (if truthy_name appName \<and> \<not> typeof_function (heap r) v
      then (case (if truthy (js_get (heap r) (global_at r) (key_of appName)) then Normal (heap r)
                  else js_set (heap r @ [plain]) (global_at r) (key_of appName)
                         (ORef (length (heap r)))) of
              Thrown h \<Rightarrow> Thrown (r\<lparr>heap := h\<rparr>)
            | Normal h \<Rightarrow>
                (case js_get h (global_at r) (key_of appName) of
                   ORef x \<Rightarrow>
                     (case js_set h x prop v of
                        Thrown h' \<Rightarrow> Thrown (r\<lparr>heap := h'\<rparr>)
                      | Normal h' \<Rightarrow> Normal (r\<lparr>heap := h'\<rparr>))
                 | OUndefined \<Rightarrow> Thrown (r\<lparr>heap := h\<rparr>)
                 | ONull \<Rightarrow> Thrown (r\<lparr>heap := h\<rparr>)
                 | _ \<Rightarrow> Normal (r\<lparr>heap := h\<rparr>)))
      else (case js_set (heap r) target prop v of
              Thrown h' \<Rightarrow> Thrown (r\<lparr>heap := h'\<rparr>)
            | Normal h' \<Rightarrow> Normal (r\<lparr>heap := h'\<rparr>)))"

text \<open>
  \<^verbatim>\<open>createSandbox()\<close> on a page whose window object is at the address \<open>host\<close>: it
  creates \<^verbatim>\<open>global\<close>, the two functions and \<^verbatim>\<open>sandboxWindow\<close>, which gets the own
  enumerable properties of the window object (\<^verbatim>\<open>{...window}\<close>; \<open>props\<close> of the window
  object are these) and four more, and it stores \<^verbatim>\<open>sandboxProxy\<close> in the cache.
\<close>

definition createSandbox_at :: "nat \<Rightarrow> heap \<Rightarrow> realm" where
  "createSandbox_at host h =
     (let g = length h; w = g + 3 in
      \<lparr>heap = h @
         [plain,
          \<lparr>props = [''name'' \<mapsto> OStr ''setGlobalState'', ''length'' \<mapsto> ONum 1],
           proto = Some 1, fn = Some (''setGlobalState'', Returns)\<rparr>,
          \<lparr>props = [''name'' \<mapsto> OStr ''getGlobalState'', ''length'' \<mapsto> ONum 0],
           proto = Some 1, fn = Some (''getGlobalState'', Returns)\<rparr>,
          \<lparr>props = (props (obj_at h host))
             (''__MICRO_APP_ENVIRONMENT__'' \<mapsto> OBool True,
              ''__MICRO_APP_NAME__'' \<mapsto> ONull,
              ''setGlobalState'' \<mapsto> ORef (g + 1),
              ''getGlobalState'' \<mapsto> ORef (g + 2)),
           proto = Some 0, fn = None\<rparr>],
       global_at = g, window_at = w, proxyCache = [(w, None)]\<rparr>)"

text \<open>
  \<^verbatim>\<open>sandbox.global[app.name] = {}\<close> of \<^verbatim>\<open>executeScripts\<close>, and what \<^verbatim>\<open>exec\<close> does before it
  runs the code: it sets \<^verbatim>\<open>__MICRO_APP_NAME__\<close>, clears the cache and makes the proxy of
  \<^verbatim>\<open>sandboxWindow\<close> for the application, which the code gets as \<^verbatim>\<open>window\<close>, \<^verbatim>\<open>self\<close> and
  \<^verbatim>\<open>globalThis\<close>.
\<close>

definition new_private_object :: "string \<Rightarrow> realm \<Rightarrow> realm" where
  "new_private_object n r =
     r\<lparr>heap := state_of (js_set (heap r @ [plain]) (global_at r) n (ORef (length (heap r))))\<rparr>"

definition exec_begin :: "string \<Rightarrow> realm \<Rightarrow> realm" where
  "exec_begin appName r =
     r\<lparr>heap := state_of (js_set (heap r) (window_at r) ''__MICRO_APP_NAME__'' (OStr appName)),
       proxyCache := [(window_at r, Some appName)]\<rparr>"

text \<open>
  \<open>private_object r n x\<close>: the object \<open>x\<close> is the private object of the name \<open>n\<close>, an own
  property of \<^verbatim>\<open>global\<close>, and neither \<^verbatim>\<open>global\<close> itself nor one of its prototypes. This
  is what \<^verbatim>\<open>executeScripts\<close> establishes for every name but \<^verbatim>\<open>__proto__\<close>.
\<close>

definition private_object :: "realm \<Rightarrow> string \<Rightarrow> nat \<Rightarrow> bool" where
  "private_object r n x =
     (global_at r < length (heap r) \<and> global_at r \<noteq> 0 \<and> x < length (heap r) \<and>
      x \<notin> set (protos (heap r) (global_at r)) \<and>
      props (obj_at (heap r) (global_at r)) n = Some (ORef x))"

subsection \<open>The sandbox record as a view of the realm\<close>

text \<open>
  The sandbox record of the orchestrator shows the realm by own properties: the
  private objects that are own properties of \<^verbatim>\<open>global\<close>, and \<^verbatim>\<open>sandboxWindow\<close>, each as
  the map of its own properties. \<open>separate\<close> says that the private objects are distinct
  objects and none of them is \<^verbatim>\<open>sandboxWindow\<close> or \<^verbatim>\<open>global\<close>.
\<close>

fun to_jsval :: "heap \<Rightarrow> ovalue \<Rightarrow> jsval" where
  "to_jsval h OUndefined = Undefined"
| "to_jsval h ONull = Null"
| "to_jsval h (OBool b) = Bool b"
| "to_jsval h (ONum n) = Num n"
| "to_jsval h (OStr s) = Str s"
| "to_jsval h (ORef a) = (case fn (obj_at h a) of Some (f, c) \<Rightarrow> Fun f c | None \<Rightarrow> Obj a)"

definition own_store :: "heap \<Rightarrow> nat \<Rightarrow> store" where
  "own_store h a = (\<lambda>k. map_option (to_jsval h) (props (obj_at h a) k))"

definition own_view :: "realm \<Rightarrow> sandbox" where
  "own_view r =
     \<lparr>global = (\<lambda>n. case props (obj_at (heap r) (global_at r)) n of
                      Some (ORef x) \<Rightarrow> Some (own_store (heap r) x)
                    | _ \<Rightarrow> None),
      sandboxWindow = own_store (heap r) (window_at r)\<rparr>"

definition separate :: "realm \<Rightarrow> bool" where
  "separate r =
     (window_at r < length (heap r) \<and> window_at r \<noteq> global_at r \<and>
      (\<forall>n m x. props (obj_at (heap r) (global_at r)) n = Some (ORef x) \<longrightarrow>
         x \<noteq> window_at r \<and> x \<noteq> global_at r \<and>
         (props (obj_at (heap r) (global_at r)) m = Some (ORef x) \<longrightarrow> m = n)))"

subsection \<open>A page with a sandbox for two applications\<close>

text \<open>
  A small page: \<^verbatim>\<open>Object.prototype\<close> with one method, \<^verbatim>\<open>Function.prototype\<close>, that
  method, the window object with the properties \<^verbatim>\<open>name\<close>, \<^verbatim>\<open>top\<close> and \<^verbatim>\<open>document\<close>, and the
  document. \<open>fresh_sandbox\<close> is the sandbox made on it: \<^verbatim>\<open>global\<close> is at the address 5 and
  \<^verbatim>\<open>sandboxWindow\<close> at 8. In \<open>two_apps\<close> the applications \<open>a\<close> and \<open>b\<close> have their
  private objects, at 9 and 10, and a function object has been created at 11, as by a
  function expression in the code of \<open>a\<close>.
\<close>

definition page_heap :: heap where
  "page_heap =
     [\<lparr>props = [''hasOwnProperty'' \<mapsto> ORef 2], proto = None, fn = None\<rparr>,
      \<lparr>props = Map.empty, proto = Some 0, fn = Some (''Function.prototype'', Returns)\<rparr>,
      \<lparr>props = Map.empty, proto = Some 1, fn = Some (''hasOwnProperty'', Returns)\<rparr>,
      \<lparr>props = [''name'' \<mapsto> OStr ''host'', ''top'' \<mapsto> ORef 3, ''document'' \<mapsto> ORef 4],
       proto = Some 0, fn = None\<rparr>,
      \<lparr>props = Map.empty, proto = Some 0, fn = None\<rparr>]"

definition fresh_sandbox :: realm where
  "fresh_sandbox = createSandbox_at 3 page_heap"

definition new_function :: "realm \<Rightarrow> realm" where
  "new_function r =
     r\<lparr>heap := heap r @ [\<lparr>props = Map.empty, proto = Some 1, fn = Some (''f'', Returns)\<rparr>]\<rparr>"

definition two_apps :: realm where
  "two_apps = new_function (new_private_object ''b'' (new_private_object ''a'' fresh_sandbox))"


section \<open>Properties\<close>

subsection \<open>Basic facts\<close>

lemma find_append:
  "find P (xs @ ys) = (case find P xs of Some x \<Rightarrow> Some x | None \<Rightarrow> find P ys)"
  by (induction xs) auto

lemma map_of_set_children:
  "map_of (set_children k v l) k' =
     (if k' = k then (case map_of l k of None \<Rightarrow> None | Some w \<Rightarrow> Some v) else map_of l k')"
  by (induction l) auto

subsection \<open>Route changes that match the active application\<close>

text \<open>
  Claim C4. When the path matches a descriptor whose name is the name of the active
  application, \<^verbatim>\<open>reroute\<close> returns before any teardown: the state it leaves differs
  from the state it found only by the trace entry of the notification itself; no hook
  is called, nothing is fetched, no load is started, the document is untouched. A second
  notification for the same path again adds only its own trace entry.
\<close>

theorem reroute_active_is_noop:
  assumes "matchedApp s = Some m" and "activeApp s = Some a" and "name a = name m"
  shows "reroute s = Normal (log [Reroute (pathname s)] s) \<and>
         reroute (log [Reroute (pathname s)] s) =
           Normal (log [Reroute (pathname s), Reroute (pathname s)] s)"
  using assms by (simp add: reroute_def matchedApp_def log_def)

theorem reroute_active_is_noop_witness:
  "matchedApp atA = Some appA \<and> activeApp atA = Some appA \<and>
   reroute atA = Normal (log [Reroute ''/a''] atA)"
proof -
  have m: "matchedApp atA = Some appA" by code_simp
  have a: "activeApp atA = Some appA" by code_simp
  have p: "pathname atA = ''/a''" by code_simp
  from reroute_active_is_noop [OF m a] m a p show ?thesis by simp
qed

subsection \<open>Registration\<close>

text \<open>
  Claim C6, as stated, fails: \<^verbatim>\<open>registerMicroApps\<close> has no check of the name.
  Registering the descriptor \<open>a\<close> a second time does not fail and does not leave the
  registry unchanged; the registry then holds the descriptor twice.
\<close>

theorem register_duplicate_counterexample:
  "apps (registerMicroApps appA (registerMicroApps appA init)) = [appA, appA] \<and>
   apps (registerMicroApps appA (registerMicroApps appA init)) \<noteq>
     apps (registerMicroApps appA init)"
  by (simp add: registerMicroApps_def init_def)

text \<open>
  Claim C6, amended. Every registration, whether or not the name is already present,
  appends the descriptor at the end of the registry and changes nothing else. The
  registry is ordered by registration: a path that matched a descriptor before still
  matches that descriptor, and the new descriptor is matched only by a path that
  matched none.
\<close>

theorem registerMicroApps_appends:
  "apps (registerMicroApps a s) = apps s @ [a] \<and>
   activeApp (registerMicroApps a s) = activeApp s \<and>
   matchedApp (registerMicroApps a s) =
     (case matchedApp s of
        Some b \<Rightarrow> Some b
      | None \<Rightarrow> if startsWith (pathname s) (activeRule a) then Some a else None)"
  by (simp add: registerMicroApps_def matchedApp_def find_append split: option.splits)

subsection \<open>Route changes away from the active application\<close>




subsection \<open>What a write through a proxy of the sandbox can reach\<close>

text \<open>
  Code that only writes through the proxy never installs a hook: the \<^verbatim>\<open>set\<close> handler
  keeps every function out of the private objects, where \<^verbatim>\<open>loadAndMountApp\<close> and
  \<^verbatim>\<open>unmountApp\<close> look for \<^verbatim>\<open>mount\<close> and \<^verbatim>\<open>unmount\<close>.
\<close>

lemma handler_set_function_free:
  "function_free sb \<Longrightarrow> function_free (handler_set appName p v sb)"
  by (auto simp: function_free_def handler_set_def split: option.splits if_splits)

lemma run_code_function_free:
  "list_all through_proxy code \<Longrightarrow> function_free sb \<Longrightarrow> function_free (run_code n code sb)"
proof (induction code arbitrary: sb)
  case Nil
  then show ?case by simp
next
  case (Cons st code)
  then show ?case by (cases st) (simp_all add: handler_set_function_free)
qed

lemma function_free_no_hook: "function_free sb \<Longrightarrow> hook_of sb n h = None"
  by (fastforce simp: function_free_def hook_of_def split: option.splits jsval.splits)

lemma proxy_writes_install_no_hook:
  assumes "list_all through_proxy code" and "function_free sb"
  shows "hook_of (exec code n sb) m h = None"
proof -
  have "function_free (sb\<lparr>sandboxWindow := (sandboxWindow sb)(''__MICRO_APP_NAME__'' \<mapsto> Str n)\<rparr>)"
    using assms(2) by (simp add: function_free_def)
  from run_code_function_free [OF assms(1) this] show ?thesis
    by (simp add: exec_def function_free_no_hook)
qed

text \<open>
  An assignment that defines or updates an own property of the object \<open>x\<close> changes no
  prototype chain, and no lookup that does not pass \<open>x\<close>.
\<close>

lemma obj_at_update:
  "obj_at (h[x := ob]) a = (if a = x \<and> x < length h then ob else obj_at h a)"
  by (simp add: obj_at_def)

lemma chain_update_props:
  "chain n (h[x := (obj_at h x)\<lparr>props := P\<rparr>]) a = chain n h a"
  by (induction n arbitrary: a) (auto simp: obj_at_update split: option.splits)

lemma protos_update_props:
  "protos (h[x := (obj_at h x)\<lparr>props := P\<rparr>]) a = protos h a"
  by (simp add: protos_def chain_update_props)

lemma find_slot_update_props:
  "x \<notin> set as \<Longrightarrow> find_slot (h[x := (obj_at h x)\<lparr>props := P\<rparr>]) as k = find_slot h as k"
  by (induction as) (auto simp: obj_at_update split: option.splits)

lemma protos_Cons:
  "a < length h \<Longrightarrow> \<exists>as. protos h a = a # as"
  by (cases "length h") (auto simp: protos_def)

lemma typeof_function_update_props:
  "typeof_function (h[x := (obj_at h x)\<lparr>props := P\<rparr>]) v = typeof_function h v"
  by (cases v) (simp_all add: obj_at_update)

lemma typeof_object_update_props:
  "typeof_object (h[x := (obj_at h x)\<lparr>props := P\<rparr>]) v = typeof_object h v"
  by (cases v) (simp_all add: obj_at_update)

lemma js_get_update_props:
  assumes "x \<notin> set (protos h a)"
  shows "js_get (h[x := (obj_at h x)\<lparr>props := P\<rparr>]) a k = js_get h a k"
    and "js_has (h[x := (obj_at h x)\<lparr>props := P\<rparr>]) a k = js_has h a k"
proof -
  from assms have "a \<noteq> x \<or> \<not> x < length h"
    using protos_Cons [of x h] by auto
  then have "proto (obj_at (h[x := (obj_at h x)\<lparr>props := P\<rparr>]) a) = proto (obj_at h a)"
    by (auto simp: obj_at_update)
  with assms show "js_get (h[x := (obj_at h x)\<lparr>props := P\<rparr>]) a k = js_get h a k"
    by (simp add: js_get_def protos_update_props find_slot_update_props split: slot.splits)
  from assms show "js_has (h[x := (obj_at h x)\<lparr>props := P\<rparr>]) a k = js_has h a k"
    by (simp add: js_has_def protos_update_props find_slot_update_props)
qed

lemma private_object_get:
  assumes "private_object r n x"
  shows "js_get (heap r) (global_at r) n = ORef x"
proof -
  from assms have g: "global_at r < length (heap r)" "global_at r \<noteq> 0"
    and o: "props (obj_at (heap r) (global_at r)) n = Some (ORef x)"
    by (simp_all add: private_object_def)
  from protos_Cons [OF g(1)] obtain ps where "protos (heap r) (global_at r) = global_at r # ps"
    by blast
  with g o show ?thesis by (simp add: js_get_def)
qed

lemma js_set_own:
  assumes "find_slot h (protos h x) p \<noteq> Accessor"
  shows "js_set h x p v = Normal (h[x := (obj_at h x)\<lparr>props := (props (obj_at h x))(p \<mapsto> v)\<rparr>])"
  using assms by (simp add: js_set_def split: slot.splits)

lemma wrap_update_props:
  "seen (wrap n w (r\<lparr>heap := (heap r)[x := (obj_at (heap r) x)\<lparr>props := P\<rparr>]\<rparr>)) = seen (wrap n w r)"
  by (cases w)
    (simp_all add: wrap_def createProxy_def obj_at_update split: option.splits)


text \<open>A new object at the end of the heap leaves the grounded chains as they are.\<close>

lemma obj_at_append: "a < length h \<Longrightarrow> obj_at (h @ hs) a = obj_at h a"
  by (simp add: obj_at_def nth_append)

lemma chain_append:
  "list_all (\<lambda>b. b < length h) (chain n h a) \<Longrightarrow> chain n (h @ hs) a = chain n h a"
  by (induction n arbitrary: a) (auto simp: obj_at_append split: option.splits)

lemma chain_fuel:
  "chain n h a \<noteq> [] \<Longrightarrow> proto (obj_at h (last (chain n h a))) = None \<Longrightarrow>
   chain (Suc n) h a = chain n h a"
proof (induction n arbitrary: a)
  case 0
  then show ?case by simp
next
  case (Suc n)
  show ?case
  proof (cases "proto (obj_at h a)")
    case None
    then show ?thesis by simp
  next
    case (Some q)
    show ?thesis
    proof (cases "chain n h q = []")
      case True
      with Suc.prems Some show ?thesis by simp
    next
      case False
      with Suc.prems Some have "proto (obj_at h (last (chain n h q))) = None" by simp
      from Suc.IH [OF False this] Some show ?thesis by simp
    qed
  qed
qed

lemma protos_append:
  assumes "grounded h a"
  shows "protos (h @ [ob]) a = protos h a"
proof -
  from assms have g: "chain (length h) h a \<noteq> []"
    "list_all (\<lambda>b. b < length h) (chain (length h) h a)"
    "proto (obj_at h (last (chain (length h) h a))) = None"
    by (simp_all add: grounded_def protos_def)
  from chain_fuel [OF g(1,3)] have f: "chain (Suc (length h)) h a = chain (length h) h a" .
  with g(2) have "list_all (\<lambda>b. b < length h) (chain (Suc (length h)) h a)" by simp
  from chain_append [OF this, of "[ob]"] f show ?thesis by (simp add: protos_def)
qed

lemma find_slot_append:
  "list_all (\<lambda>b. b < length h) os \<Longrightarrow> find_slot (h @ hs) os k = find_slot h os k"
  by (induction os) (auto simp: obj_at_append split: option.splits)

lemma find_slot_Accessor: "find_slot h os k = Accessor \<Longrightarrow> k = ''__proto__''"
  by (induction os) (auto split: if_splits option.splits)

text \<open>
  The first statement of the \<^verbatim>\<open>set\<close> handler, \<^verbatim>\<open>if (!global[appName]) global[appName] = {}\<close>,
  when \<^verbatim>\<open>global\<close> has no property of that name, its own or inherited.
\<close>

lemma new_private_object_heap:
  assumes "global_at r < length (heap r)" and "grounded (heap r) (global_at r)"
    and "find_slot (heap r) (protos (heap r) (global_at r)) n = Absent"
  shows "js_set (heap r @ [plain]) (global_at r) n (ORef (length (heap r))) =
           Normal ((heap r @ [plain])[global_at r :=
             (obj_at (heap r) (global_at r))
               \<lparr>props := (props (obj_at (heap r) (global_at r)))(n \<mapsto> ORef (length (heap r)))\<rparr>])"
proof -
  from assms(2) have "list_all (\<lambda>b. b < length (heap r)) (protos (heap r) (global_at r))"
    by (simp add: grounded_def)
  with assms(3) protos_append [OF assms(2), of plain]
  have "find_slot (heap r @ [plain]) (protos (heap r @ [plain]) (global_at r)) n = Absent"
    by (simp add: find_slot_append)
  with assms(1) show ?thesis by (simp add: js_set_def obj_at_append)
qed

lemma new_private_object_creates:
  assumes "global_at r < length (heap r)" and "global_at r \<noteq> 0"
    and "grounded (heap r) (global_at r)"
    and "find_slot (heap r) (protos (heap r) (global_at r)) n = Absent"
  shows "private_object (new_private_object n r) n (length (heap r))"
    and "obj_at (heap (new_private_object n r)) (length (heap r)) = plain"
    and "props (obj_at (heap (new_private_object n r)) (global_at r)) =
           (props (obj_at (heap r) (global_at r)))(n \<mapsto> ORef (length (heap r)))"
    and "proto (obj_at (heap (new_private_object n r)) (global_at r)) =
           proto (obj_at (heap r) (global_at r))"
    and "\<forall>a. a \<noteq> global_at r \<and> a \<noteq> length (heap r) \<longrightarrow>
           obj_at (heap (new_private_object n r)) a = obj_at (heap r) a"
    and "\<forall>w. typeof_function (heap (new_private_object n r)) w = typeof_function (heap r) w"
proof -
  let ?h = "heap r"
  let ?g = "global_at r"
  let ?og = "(obj_at ?h ?g)\<lparr>props := (props (obj_at ?h ?g))(n \<mapsto> ORef (length ?h))\<rparr>"
  note h1 = new_private_object_heap [OF assms(1,3,4)]
  then have hp: "heap (new_private_object n r) = (?h @ [plain])[?g := ?og]"
    by (simp add: new_private_object_def)
  have og: "obj_at (?h @ [plain]) ?g = obj_at ?h ?g" using assms(1) by (simp add: obj_at_append)
  have pr: "protos ((?h @ [plain])[?g := ?og]) ?g = protos ?h ?g"
    using protos_update_props [of "?h @ [plain]" ?g _ ?g] protos_append [OF assms(3), of plain] og
    by simp
  from assms(3) have "list_all (\<lambda>b. b < length ?h) (protos ?h ?g)" by (simp add: grounded_def)
  then have nin: "length ?h \<notin> set (protos ?h ?g)" by (auto simp: list_all_iff)
  have gl: "global_at (new_private_object n r) = global_at r" by (simp add: new_private_object_def)
  show "private_object (new_private_object n r) n (length ?h)"
    using assms(1,2) nin pr by (simp add: private_object_def hp gl obj_at_update)
  show "obj_at (heap (new_private_object n r)) (length ?h) = plain"
    using assms(1) by (simp add: hp obj_at_def nth_append)
  show "props (obj_at (heap (new_private_object n r)) ?g) = (props (obj_at ?h ?g))(n \<mapsto> ORef (length ?h))"
    using assms(1) by (simp add: hp obj_at_update)
  show "proto (obj_at (heap (new_private_object n r)) ?g) = proto (obj_at ?h ?g)"
    using assms(1) by (simp add: hp obj_at_update)
  show "\<forall>a. a \<noteq> ?g \<and> a \<noteq> length ?h \<longrightarrow> obj_at (heap (new_private_object n r)) a = obj_at ?h a"
    by (auto simp: hp obj_at_def nth_append)
  show "\<forall>w. typeof_function (heap (new_private_object n r)) w = typeof_function ?h w"
  proof
    fix w
    show "typeof_function (heap (new_private_object n r)) w = typeof_function ?h w"
      using assms(1) by (cases w) (auto simp: hp obj_at_def nth_append plain_def nth_list_update)
  qed
qed

lemma proxy_set_creates:
  assumes "truthy_name (Some A)" and "\<not> typeof_function (heap r) v"
    and "global_at r < length (heap r)" and "global_at r \<noteq> 0"
    and "grounded (heap r) (global_at r)"
    and "find_slot (heap r) (protos (heap r) (global_at r)) A = Absent"
  shows "proxy_set t (Some A) p v r = proxy_set t (Some A) p v (new_private_object A r)"
proof -
  note c = new_private_object_creates [OF assms(3-6)]
  have h1: "js_set (heap r @ [plain]) (global_at r) A (ORef (length (heap r))) =
              Normal (heap (new_private_object A r))"
    using new_private_object_heap [OF assms(3,5,6)] by (simp add: new_private_object_def)
  have g0: "js_get (heap r) (global_at r) A = OUndefined"
    using assms(6) by (simp add: js_get_def)
  have g1: "js_get (heap (new_private_object A r)) (global_at (new_private_object A r)) A =
              ORef (length (heap r))"
    using private_object_get [OF c(1)] .
  have gl: "global_at (new_private_object A r) = global_at r" by (simp add: new_private_object_def)
  have rr: "\<And>h. (new_private_object A r)\<lparr>heap := h\<rparr> = r\<lparr>heap := h\<rparr>"
    by (simp add: new_private_object_def)
  from assms(1,2) c(6) g0 g1 h1 gl rr show ?thesis
    by (simp add: proxy_set_def split: outcome.splits)
qed


lemma to_jsval_update_props:
  "to_jsval (h[x := (obj_at h x)\<lparr>props := P\<rparr>]) = to_jsval h"
proof
  fix w
  show "to_jsval (h[x := (obj_at h x)\<lparr>props := P\<rparr>]) w = to_jsval h w"
    by (cases w) (simp_all add: obj_at_update)
qed

lemma is_function_to_jsval: "is_function (to_jsval h w) = typeof_function h w"
  by (cases w) (auto split: option.splits)

lemma own_store_write:
  "x < length h \<Longrightarrow>
   own_store (h[x := (obj_at h x)\<lparr>props := (props (obj_at h x))(p \<mapsto> v)\<rparr>]) x =
     (own_store h x)(p \<mapsto> to_jsval h v)"
  by (rule ext) (simp add: own_store_def obj_at_update to_jsval_update_props)

lemma own_store_other:
  "a \<noteq> x \<Longrightarrow> own_store (h[x := (obj_at h x)\<lparr>props := P\<rparr>]) a = own_store h a"
  by (rule ext) (simp add: own_store_def obj_at_update to_jsval_update_props)

text \<open>
  The sandbox record of the orchestrator is the view of the realm by own properties.
  For a write through the proxy of the sandbox window made for a name that has a
  private object, with a property name other than \<^verbatim>\<open>__proto__\<close>, \<open>handler_set\<close> is what
  the \<^verbatim>\<open>set\<close> handler does in this view.
\<close>

lemma proxy_set_own_view:
  assumes "truthy_name (Some A)" and "private_object r A x" and "separate r"
    and "p \<noteq> ''__proto__''"
  shows "own_view (state_of (proxy_set (window_at r) (Some A) p v r)) =
           handler_set (Some A) p (to_jsval (heap r) v) (own_view r)"
proof -
  let ?h = "heap r"
  let ?g = "global_at r"
  let ?w = "window_at r"
  from assms(2) have x: "x < length ?h" and g: "?g < length ?h"
    and o: "props (obj_at ?h ?g) A = Some (ORef x)"
    by (simp_all add: private_object_def)
  from assms(3) o have w: "?w < length ?h" "?w \<noteq> ?g" and xw: "x \<noteq> ?w" "x \<noteq> ?g"
    by (auto simp: separate_def)
  from assms(3) o have inj: "\<And>n. props (obj_at ?h ?g) n = Some (ORef x) \<Longrightarrow> n = A"
    unfolding separate_def by blast
  from assms(3) have sep: "\<And>n y. props (obj_at ?h ?g) n = Some (ORef y) \<Longrightarrow> y \<noteq> ?w"
    unfolding separate_def by blast
  have na: "\<And>a. find_slot ?h (protos ?h a) p \<noteq> Accessor"
    using assms(4) find_slot_Accessor by blast
  show ?thesis
  proof (cases "typeof_function ?h v")
    case True
    let ?h' = "?h[?w := (obj_at ?h ?w)\<lparr>props := (props (obj_at ?h ?w))(p \<mapsto> v)\<rparr>]"
    have s: "proxy_set ?w (Some A) p v r = Normal (r\<lparr>heap := ?h'\<rparr>)"
      using True js_set_own [OF na, of ?w v] by (simp add: proxy_set_def)
    have pg: "props (obj_at ?h' ?g) = props (obj_at ?h ?g)" using w by (simp add: obj_at_update)
    have gl: "global (own_view (r\<lparr>heap := ?h'\<rparr>)) = global (own_view r)"
    proof
      fix n
      show "global (own_view (r\<lparr>heap := ?h'\<rparr>)) n = global (own_view r) n"
      proof (cases "props (obj_at ?h ?g) n")
        case None
        with pg show ?thesis by (simp add: own_view_def)
      next
        case (Some u)
        show ?thesis
        proof (cases u)
          case (ORef y)
          with Some sep have "y \<noteq> ?w" by blast
          with Some ORef pg show ?thesis by (simp add: own_view_def own_store_other)
        qed (use Some pg in \<open>simp_all add: own_view_def\<close>)
      qed
    qed
    have sw: "sandboxWindow (own_view (r\<lparr>heap := ?h'\<rparr>)) =
                (sandboxWindow (own_view r))(p \<mapsto> to_jsval ?h v)"
      using w by (simp add: own_view_def own_store_write)
    from gl sw True show ?thesis
      by (simp add: s handler_set_def is_function_to_jsval)
  next
    case False
    let ?h' = "?h[x := (obj_at ?h x)\<lparr>props := (props (obj_at ?h x))(p \<mapsto> v)\<rparr>]"
    have s: "proxy_set ?w (Some A) p v r = Normal (r\<lparr>heap := ?h'\<rparr>)"
      using False assms(1) private_object_get [OF assms(2)] js_set_own [OF na, of x v]
      by (simp add: proxy_set_def)
    have pg: "props (obj_at ?h' ?g) = props (obj_at ?h ?g)" using xw by (simp add: obj_at_update)
    have gl: "global (own_view (r\<lparr>heap := ?h'\<rparr>)) =
                (global (own_view r))(A \<mapsto> (own_store ?h x)(p \<mapsto> to_jsval ?h v))"
    proof
      fix n
      show "global (own_view (r\<lparr>heap := ?h'\<rparr>)) n =
              ((global (own_view r))(A \<mapsto> (own_store ?h x)(p \<mapsto> to_jsval ?h v))) n"
      proof (cases "n = A")
        case True
        with o pg x show ?thesis by (simp add: own_view_def own_store_write)
      next
        case na: False
        show ?thesis
        proof (cases "props (obj_at ?h ?g) n")
          case None
          with pg na show ?thesis by (simp add: own_view_def)
        next
          case (Some u)
          show ?thesis
          proof (cases u)
            case (ORef y)
            with Some inj na have "y \<noteq> x" by blast
            with Some ORef pg na show ?thesis by (simp add: own_view_def own_store_other)
          qed (use Some pg na in \<open>simp_all add: own_view_def\<close>)
        qed
      qed
    qed
    have sw: "sandboxWindow (own_view (r\<lparr>heap := ?h'\<rparr>)) = sandboxWindow (own_view r)"
      using xw by (simp add: own_view_def own_store_other)
    have ga: "global (own_view r) A = Some (own_store ?h x)" using o by (simp add: own_view_def)
    from gl sw ga False assms(1) show ?thesis
      by (simp add: s handler_set_def is_function_to_jsval)
  qed
qed

text \<open>
  The realm that \<^verbatim>\<open>createSandbox\<close> makes on a page whose \<^verbatim>\<open>Object.prototype\<close> is in
  place: \<^verbatim>\<open>global\<close> is grounded, and what it has under a name is the accessor for
  \<^verbatim>\<open>__proto__\<close>, the property of \<^verbatim>\<open>Object.prototype\<close> for the name of such a property, and
  nothing for every other name. In the view by own properties the realm is the sandbox
  record that \<open>createSandbox\<close> gives.
\<close>

lemma createSandbox_at_realm:
  assumes "0 < length h" and "proto (obj_at h 0) = None"
  shows "global_at (createSandbox_at host h) < length (heap (createSandbox_at host h))"
    and "global_at (createSandbox_at host h) \<noteq> 0"
    and "grounded (heap (createSandbox_at host h)) (global_at (createSandbox_at host h))"
    and "find_slot (heap (createSandbox_at host h))
           (protos (heap (createSandbox_at host h)) (global_at (createSandbox_at host h))) n =
         (if n = ''__proto__'' then Accessor
          else (case props (obj_at h 0) n of Some v \<Rightarrow> Data v | None \<Rightarrow> Absent))"
proof -
  let ?r = "createSandbox_at host h"
  let ?g = "length h"
  have g: "global_at ?r = ?g" and l: "length (heap ?r) = ?g + 4"
    by (simp_all add: createSandbox_at_def Let_def)
  have og: "obj_at (heap ?r) ?g = plain"
    by (simp add: createSandbox_at_def Let_def obj_at_def nth_append)
  have o0: "obj_at (heap ?r) 0 = obj_at h 0"
    using assms(1) by (simp add: createSandbox_at_def Let_def obj_at_def nth_append)
  obtain k where k: "length (heap ?r) = Suc (Suc k)" using l by (cases "length (heap ?r)") auto
  have pr: "protos (heap ?r) ?g = [?g, 0]"
    using og o0 assms(2) by (simp add: protos_def k plain_def)
  show "global_at ?r < length (heap ?r)" using g l by simp
  show "global_at ?r \<noteq> 0" using g assms(1) by simp
  show "grounded (heap ?r) (global_at ?r)"
    using pr o0 assms(2) l by (simp add: grounded_def g)
  show "find_slot (heap ?r) (protos (heap ?r) (global_at ?r)) n =
         (if n = ''__proto__'' then Accessor
          else (case props (obj_at h 0) n of Some v \<Rightarrow> Data v | None \<Rightarrow> Absent))"
    using pr og o0 assms(1) by (simp add: g plain_def split: option.splits)
qed

lemma createSandbox_own_view:
  assumes "\<And>k a. props (obj_at h host) k = Some (ORef a) \<Longrightarrow> a < length h"
  shows "own_view (createSandbox_at host h) = createSandbox (own_store h host)"
proof -
  let ?r = "createSandbox_at host h"
  let ?g = "length h"
  have g: "global_at ?r = ?g" and w: "window_at ?r = ?g + 3"
    by (simp_all add: createSandbox_at_def Let_def)
  have og: "props (obj_at (heap ?r) ?g) = Map.empty"
    by (simp add: createSandbox_at_def Let_def obj_at_def nth_append plain_def)
  have old: "\<And>a. a < length h \<Longrightarrow> obj_at (heap ?r) a = obj_at h a"
    by (simp add: createSandbox_at_def Let_def obj_at_def nth_append)
  have f1: "fn (obj_at (heap ?r) (?g + 1)) = Some (''setGlobalState'', Returns)"
    and f2: "fn (obj_at (heap ?r) (?g + 2)) = Some (''getGlobalState'', Returns)"
    by (simp_all add: createSandbox_at_def Let_def obj_at_def nth_append)
  have ow: "props (obj_at (heap ?r) (?g + 3)) =
      (props (obj_at h host))
        (''__MICRO_APP_ENVIRONMENT__'' \<mapsto> OBool True,
         ''__MICRO_APP_NAME__'' \<mapsto> ONull,
         ''setGlobalState'' \<mapsto> ORef (?g + 1),
         ''getGlobalState'' \<mapsto> ORef (?g + 2))"
    by (simp add: createSandbox_at_def Let_def obj_at_def nth_append)
  have tj: "\<And>k u. props (obj_at h host) k = Some u \<Longrightarrow> to_jsval (heap ?r) u = to_jsval h u"
  proof -
    fix k u
    assume "props (obj_at h host) k = Some u"
    with assms old show "to_jsval (heap ?r) u = to_jsval h u" by (cases u) auto
  qed
  have gl: "global (own_view ?r) = Map.empty"
    by (rule ext) (simp add: own_view_def g og)
  have sw: "sandboxWindow (own_view ?r) = sandboxWindow (createSandbox (own_store h host))"
  proof
    fix k
    show "sandboxWindow (own_view ?r) k = sandboxWindow (createSandbox (own_store h host)) k"
      using f1 f2 tj [of k]
      by (cases "props (obj_at h host) k")
         (simp_all add: own_view_def w ow own_store_def createSandbox_def)
  qed
  from gl sw show ?thesis by (simp add: createSandbox_def)
qed

text \<open>
  Claim C3, as stated, fails, in the sandbox of the page above:
  \<^item> a function that the application \<open>a\<close> writes through its proxy is stored on
    \<^verbatim>\<open>sandboxWindow\<close>, where the proxy of \<open>b\<close> reads it, and not in the private object of \<open>a\<close>;
  \<^item> a function written through the proxy that the view of \<open>a\<close> returns for \<^verbatim>\<open>top\<close> is
    stored on the window object of the host;
  \<^item> \<^verbatim>\<open>window.window\<close> in the code of \<open>a\<close> is \<^verbatim>\<open>sandboxProxy\<close>, the proxy made for \<^verbatim>\<open>null\<close>, and
    a number written through it is stored on \<^verbatim>\<open>sandboxWindow\<close>, where \<open>b\<close> reads it;
  \<^item> for the application name \<^verbatim>\<open>__proto__\<close>, \<^verbatim>\<open>global[appName]\<close> is \<^verbatim>\<open>Object.prototype\<close>, and
    a number written through the proxy of that name is read from the window object of
    the host.
\<close>

theorem sandbox_leaks_counterexample:
  "global_at two_apps = 5 \<and> window_at two_apps = 8 \<and>
   js_get (heap two_apps) 5 ''a'' = ORef 9 \<and> js_get (heap two_apps) 5 ''b'' = ORef 10 \<and>
   typeof_function (heap two_apps) (ORef 11) \<and>
   seen (proxy_get 8 (Some ''b'') ''f'' (exec_begin ''b'' two_apps)) = Some (Value OUndefined) \<and>
   seen (proxy_get 8 (Some ''b'') ''f''
     (exec_begin ''b'' (state_of (proxy_set 8 (Some ''a'') ''f'' (ORef 11) (exec_begin ''a'' two_apps))))) =
     Some (Value (ORef 11)) \<and>
   js_has (heap (state_of (proxy_set 8 (Some ''a'') ''f'' (ORef 11) (exec_begin ''a'' two_apps)))) 9 ''f'' = False \<and>
   seen (proxy_get 8 (Some ''a'') ''top'' (exec_begin ''a'' two_apps)) = Some (Proxy 3 (Some ''a'')) \<and>
   js_get (heap two_apps) 3 ''g'' = OUndefined \<and>
   js_get (heap (state_of (proxy_set 3 (Some ''a'') ''g'' (ORef 11) (exec_begin ''a'' two_apps)))) 3 ''g'' =
     ORef 11 \<and>
   seen (proxy_get 8 (Some ''a'') ''window'' (exec_begin ''a'' two_apps)) = Some (Proxy 8 None) \<and>
   seen (proxy_get 8 (Some ''b'') ''y''
     (exec_begin ''b'' (state_of (proxy_set 8 None ''y'' (ONum 2) (exec_begin ''a'' two_apps))))) =
     Some (Value (ONum 2)) \<and>
   js_get (heap fresh_sandbox) 5 ''__proto__'' = ORef 0 \<and>
   js_get (heap fresh_sandbox) 3 ''x'' = OUndefined \<and>
   js_get (heap (state_of (proxy_set 8 (Some ''__proto__'') ''x'' (ONum 1)
                    (exec_begin ''__proto__'' fresh_sandbox)))) 3 ''x'' = ONum 1"
  by code_simp

text \<open>
  Claim C3, amended. Let a write be made through a proxy that the sandbox has made for
  the application name \<open>A\<close>, whatever the target of the proxy, with a value that is
  not a function, where \<open>A\<close> is not empty.

  If \<open>A\<close> has its private object (an own property of \<^verbatim>\<open>global\<close>, which is an object
  other than \<^verbatim>\<open>Object.prototype\<close>; the private object is not \<^verbatim>\<open>global\<close> or one of its
  prototypes) and the property name is not resolved to the accessor \<^verbatim>\<open>__proto__\<close> (no
  name other than \<^verbatim>\<open>__proto__\<close> is), then the write returns, the value is an own property
  of the private object of \<open>A\<close>, and no other object is changed: not \<^verbatim>\<open>sandboxWindow\<close>,
  not the private object of another name, not the window object of the host, not
  \<^verbatim>\<open>Object.prototype\<close>. So every lookup in an object that does not have the private
  object of \<open>A\<close> among its prototypes gives what it gave before; and a read of any
  property through a proxy made for any name \<open>B\<close>, on any target, gives what it gave
  before, unless the private object of \<open>A\<close> is the target or the private object of \<open>B\<close>
  or a prototype of one of them. A read of the property through a proxy made for \<open>A\<close>
  gives the value, in a proxy if it is an object.

  If \<^verbatim>\<open>global\<close> (an object other than \<^verbatim>\<open>Object.prototype\<close>, with a grounded prototype
  chain) has no property of the name \<open>A\<close>, its own or inherited, the handler first
  creates the private object: the write is the write in the realm that differs by a
  new empty object, which is the private object of \<open>A\<close> there, and by the property \<open>A\<close>
  of \<^verbatim>\<open>global\<close>; so the first case applies to it.
\<close>

theorem private_write_is_contained:
  assumes "truthy_name (Some A)" and "\<not> typeof_function (heap r) v"
  shows
    "(private_object r A x \<and> find_slot (heap r) (protos (heap r) x) p \<noteq> Accessor \<longrightarrow>
       (\<exists>h'. proxy_set t (Some A) p v r = Normal (r\<lparr>heap := h'\<rparr>) \<and>
          h' = (heap r)[x := (obj_at (heap r) x)\<lparr>props := (props (obj_at (heap r) x))(p \<mapsto> v)\<rparr>] \<and>
          props (obj_at h' x) p = Some v \<and>
          (\<forall>a. a \<noteq> x \<longrightarrow> obj_at h' a = obj_at (heap r) a) \<and>
          (\<forall>a k. x \<notin> set (protos (heap r) a) \<longrightarrow>
             js_get h' a k = js_get (heap r) a k \<and> js_has h' a k = js_has (heap r) a k) \<and>
          (\<forall>B t' k.
             x \<notin> set (protos (heap r) t') \<and>
             (\<forall>y. js_get (heap r) (global_at r) (key_of B) = ORef y \<longrightarrow>
                x \<notin> set (protos (heap r) y)) \<longrightarrow>
             seen (proxy_get t' B k (r\<lparr>heap := h'\<rparr>)) = seen (proxy_get t' B k r)) \<and>
          seen (proxy_get t (Some A) p (r\<lparr>heap := h'\<rparr>)) = seen (wrap (Some A) v r))) \<and>
     (global_at r < length (heap r) \<and> global_at r \<noteq> 0 \<and> grounded (heap r) (global_at r) \<and>
      find_slot (heap r) (protos (heap r) (global_at r)) A = Absent \<longrightarrow>
        proxy_set t (Some A) p v r = proxy_set t (Some A) p v (new_private_object A r) \<and>
        private_object (new_private_object A r) A (length (heap r)) \<and>
        \<not> typeof_function (heap (new_private_object A r)) v \<and>
        obj_at (heap (new_private_object A r)) (length (heap r)) = plain \<and>
        props (obj_at (heap (new_private_object A r)) (global_at r)) =
          (props (obj_at (heap r) (global_at r)))(A \<mapsto> ORef (length (heap r))) \<and>
        proto (obj_at (heap (new_private_object A r)) (global_at r)) =
          proto (obj_at (heap r) (global_at r)) \<and>
        (\<forall>a. a \<noteq> global_at r \<and> a \<noteq> length (heap r) \<longrightarrow>
           obj_at (heap (new_private_object A r)) a = obj_at (heap r) a)) \<and>
     (p \<noteq> ''__proto__'' \<longrightarrow> find_slot hp os p \<noteq> Accessor)"
proof -
  let ?h = "heap r"
  let ?g = "global_at r"
  let ?h' = "?h[x := (obj_at ?h x)\<lparr>props := (props (obj_at ?h x))(p \<mapsto> v)\<rparr>]"
  have 1: "\<exists>h'. proxy_set t (Some A) p v r = Normal (r\<lparr>heap := h'\<rparr>) \<and>
          h' = ?h' \<and>
          props (obj_at h' x) p = Some v \<and>
          (\<forall>a. a \<noteq> x \<longrightarrow> obj_at h' a = obj_at ?h a) \<and>
          (\<forall>a k. x \<notin> set (protos ?h a) \<longrightarrow>
             js_get h' a k = js_get ?h a k \<and> js_has h' a k = js_has ?h a k) \<and>
          (\<forall>B t' k.
             x \<notin> set (protos ?h t') \<and>
             (\<forall>y. js_get ?h ?g (key_of B) = ORef y \<longrightarrow> x \<notin> set (protos ?h y)) \<longrightarrow>
             seen (proxy_get t' B k (r\<lparr>heap := h'\<rparr>)) = seen (proxy_get t' B k r)) \<and>
          seen (proxy_get t (Some A) p (r\<lparr>heap := h'\<rparr>)) = seen (wrap (Some A) v r)"
    if po: "private_object r A x" and acc: "find_slot ?h (protos ?h x) p \<noteq> Accessor"
  proof -
    from po have x: "x < length ?h" and xg: "x \<notin> set (protos ?h ?g)"
      by (simp_all add: private_object_def)
    note gA = private_object_get [OF po]
    have st: "proxy_set t (Some A) p v r = Normal (r\<lparr>heap := ?h'\<rparr>)"
      using assms gA js_set_own [OF acc, of v] by (simp add: proxy_set_def)
    have own: "props (obj_at ?h' x) p = Some v" using x by (simp add: obj_at_update)
    have others: "\<forall>a. a \<noteq> x \<longrightarrow> obj_at ?h' a = obj_at ?h a" by (simp add: obj_at_update)
    have frame: "\<forall>a k. x \<notin> set (protos ?h a) \<longrightarrow>
        js_get ?h' a k = js_get ?h a k \<and> js_has ?h' a k = js_has ?h a k"
      by (simp add: js_get_update_props)
    have views: "\<forall>B t' k.
        x \<notin> set (protos ?h t') \<and>
        (\<forall>y. js_get ?h ?g (key_of B) = ORef y \<longrightarrow> x \<notin> set (protos ?h y)) \<longrightarrow>
        seen (proxy_get t' B k (r\<lparr>heap := ?h'\<rparr>)) = seen (proxy_get t' B k r)"
    proof (intro allI impI)
      fix B t' k
      assume a: "x \<notin> set (protos ?h t') \<and>
        (\<forall>y. js_get ?h ?g (key_of B) = ORef y \<longrightarrow> x \<notin> set (protos ?h y))"
      have g: "js_get ?h' ?g (key_of B) = js_get ?h ?g (key_of B)"
        using xg by (simp add: js_get_update_props)
      have tt: "seen (through_target t' B k (r\<lparr>heap := ?h'\<rparr>)) = seen (through_target t' B k r)"
        using a wrap_update_props [of B _ r x]
        by (simp add: through_target_def Let_def js_get_update_props)
      show "seen (proxy_get t' B k (r\<lparr>heap := ?h'\<rparr>)) = seen (proxy_get t' B k r)"
      proof (cases "js_get ?h ?g (key_of B)")
        case (ORef y)
        with a have "x \<notin> set (protos ?h y)" by simp
        then show ?thesis
          using ORef g tt wrap_update_props [of B _ r x]
          by (simp add: proxy_get_def js_get_update_props)
      qed (use g tt in \<open>simp_all add: proxy_get_def\<close>)
    qed
    have nacc: "\<not> (x = 0 \<and> p = ''__proto__'')"
      using acc protos_Cons [OF x] by auto
    have gA': "js_get ?h' ?g A = ORef x" using xg gA by (simp add: js_get_update_props)
    from protos_Cons [OF x] obtain ps where ps: "protos ?h x = x # ps" by blast
    have slot: "find_slot ?h' (protos ?h' x) p = Data v"
      using nacc x ps by (auto simp: protos_update_props obj_at_update)
    have rd: "seen (proxy_get t (Some A) p (r\<lparr>heap := ?h'\<rparr>)) = seen (wrap (Some A) v r)"
      using gA' slot wrap_update_props [of "Some A" v r x]
      by (simp add: proxy_get_def js_has_def js_get_def)
    from st own others frame views rd show ?thesis by blast
  qed
  have 2: "proxy_set t (Some A) p v r = proxy_set t (Some A) p v (new_private_object A r) \<and>
        private_object (new_private_object A r) A (length ?h) \<and>
        \<not> typeof_function (heap (new_private_object A r)) v \<and>
        obj_at (heap (new_private_object A r)) (length ?h) = plain \<and>
        props (obj_at (heap (new_private_object A r)) ?g) =
          (props (obj_at ?h ?g))(A \<mapsto> ORef (length ?h)) \<and>
        proto (obj_at (heap (new_private_object A r)) ?g) = proto (obj_at ?h ?g) \<and>
        (\<forall>a. a \<noteq> ?g \<and> a \<noteq> length ?h \<longrightarrow>
           obj_at (heap (new_private_object A r)) a = obj_at ?h a)"
    if g: "?g < length ?h" "?g \<noteq> 0" "grounded ?h ?g" "find_slot ?h (protos ?h ?g) A = Absent"
    using new_private_object_creates [OF g] proxy_set_creates [OF assms g, of t p] assms(2)
    by simp
  have 3: "p \<noteq> ''__proto__'' \<longrightarrow> find_slot hp os p \<noteq> Accessor"
    using find_slot_Accessor by blast
  from 1 2 3 show ?thesis by blast
qed

theorem private_write_is_contained_witness:
  "truthy_name (Some ''a'') \<and> \<not> typeof_function (heap (exec_begin ''a'' two_apps)) (ONum 1) \<and>
   private_object (exec_begin ''a'' two_apps) ''a'' 9 \<and>
   js_get (heap (exec_begin ''a'' two_apps)) 3 ''name'' = OStr ''host'' \<and>
   seen (proxy_get 8 (Some ''b'') ''name'' (exec_begin ''a'' two_apps)) = Some (Value (OStr ''host'')) \<and>
   (\<exists>h'. proxy_set 8 (Some ''a'') ''name'' (ONum 1) (exec_begin ''a'' two_apps) =
            Normal ((exec_begin ''a'' two_apps)\<lparr>heap := h'\<rparr>) \<and>
          props (obj_at h' 9) ''name'' = Some (ONum 1) \<and>
          obj_at h' 8 = obj_at (heap (exec_begin ''a'' two_apps)) 8 \<and>
          obj_at h' 10 = obj_at (heap (exec_begin ''a'' two_apps)) 10 \<and>
          js_get h' 3 ''name'' = OStr ''host'' \<and>
          seen (proxy_get 8 (Some ''b'') ''name'' ((exec_begin ''a'' two_apps)\<lparr>heap := h'\<rparr>)) =
            Some (Value (OStr ''host'')) \<and>
          seen (proxy_get 8 (Some ''a'') ''name'' ((exec_begin ''a'' two_apps)\<lparr>heap := h'\<rparr>)) =
            Some (Value (ONum 1))) \<and>
   grounded (heap (exec_begin ''a'' fresh_sandbox)) 5 \<and>
   find_slot (heap (exec_begin ''a'' fresh_sandbox)) (protos (heap (exec_begin ''a'' fresh_sandbox)) 5) ''a'' =
     Absent \<and>
   length (heap (exec_begin ''a'' fresh_sandbox)) = 9 \<and>
   private_object (new_private_object ''a'' (exec_begin ''a'' fresh_sandbox)) ''a'' 9 \<and>
   proxy_set 8 (Some ''a'') ''name'' (ONum 1) (exec_begin ''a'' fresh_sandbox) =
     proxy_set 8 (Some ''a'') ''name'' (ONum 1) (new_private_object ''a'' (exec_begin ''a'' fresh_sandbox))"
proof -
  let ?r = "exec_begin ''a'' two_apps"
  let ?q = "exec_begin ''a'' fresh_sandbox"
  have a: "truthy_name (Some ''a'')" by simp
  have v: "\<not> typeof_function (heap ?r) (ONum 1)" by simp
  have po: "private_object ?r ''a'' 9" by code_simp
  have acc: "find_slot (heap ?r) (protos (heap ?r) 9) ''name'' \<noteq> Accessor" by code_simp
  have host: "js_get (heap ?r) 3 ''name'' = OStr ''host''" by code_simp
  have b0: "seen (proxy_get 8 (Some ''b'') ''name'' ?r) = Some (Value (OStr ''host''))" by code_simp
  have p3: "9 \<notin> set (protos (heap ?r) 3)" by code_simp
  have p8: "9 \<notin> set (protos (heap ?r) 8)" by code_simp
  have gb: "js_get (heap ?r) (global_at ?r) (key_of (Some ''b'')) = ORef 10" by code_simp
  have p10: "9 \<notin> set (protos (heap ?r) 10)" by code_simp
  have w: "seen (wrap (Some ''a'') (ONum 1) ?r) = Some (Value (ONum 1))" by (simp add: wrap_def)
  from private_write_is_contained [OF a v, of 9 "''name''" 8 hp os] po acc obtain h' where
    h: "proxy_set 8 (Some ''a'') ''name'' (ONum 1) ?r = Normal (?r\<lparr>heap := h'\<rparr>)"
       "props (obj_at h' 9) ''name'' = Some (ONum 1)"
       "\<forall>a. a \<noteq> 9 \<longrightarrow> obj_at h' a = obj_at (heap ?r) a"
       "\<forall>a k. 9 \<notin> set (protos (heap ?r) a) \<longrightarrow>
          js_get h' a k = js_get (heap ?r) a k \<and> js_has h' a k = js_has (heap ?r) a k"
       "\<forall>B t' k.
          9 \<notin> set (protos (heap ?r) t') \<and>
          (\<forall>y. js_get (heap ?r) (global_at ?r) (key_of B) = ORef y \<longrightarrow>
             9 \<notin> set (protos (heap ?r) y)) \<longrightarrow>
          seen (proxy_get t' B k (?r\<lparr>heap := h'\<rparr>)) = seen (proxy_get t' B k ?r)"
       "seen (proxy_get 8 (Some ''a'') ''name'' (?r\<lparr>heap := h'\<rparr>)) = seen (wrap (Some ''a'') (ONum 1) ?r)"
    by blast
  from h(3) have o8: "obj_at h' 8 = obj_at (heap ?r) 8" and o10: "obj_at h' 10 = obj_at (heap ?r) 10"
    by simp_all
  from h(4) p3 host have h3: "js_get h' 3 ''name'' = OStr ''host''" by simp
  from h(5) [rule_format, of 8 "Some ''b''" "''name''"] p8 gb p10 b0
  have vb: "seen (proxy_get 8 (Some ''b'') ''name'' (?r\<lparr>heap := h'\<rparr>)) = Some (Value (OStr ''host''))"
    by simp
  from h(6) w have va: "seen (proxy_get 8 (Some ''a'') ''name'' (?r\<lparr>heap := h'\<rparr>)) = Some (Value (ONum 1))"
    by simp
  have first: "\<exists>h'. proxy_set 8 (Some ''a'') ''name'' (ONum 1) ?r = Normal (?r\<lparr>heap := h'\<rparr>) \<and>
          props (obj_at h' 9) ''name'' = Some (ONum 1) \<and>
          obj_at h' 8 = obj_at (heap ?r) 8 \<and> obj_at h' 10 = obj_at (heap ?r) 10 \<and>
          js_get h' 3 ''name'' = OStr ''host'' \<and>
          seen (proxy_get 8 (Some ''b'') ''name'' (?r\<lparr>heap := h'\<rparr>)) = Some (Value (OStr ''host'')) \<and>
          seen (proxy_get 8 (Some ''a'') ''name'' (?r\<lparr>heap := h'\<rparr>)) = Some (Value (ONum 1))"
    using h(1,2) o8 o10 h3 vb va by blast
  have v2: "\<not> typeof_function (heap ?q) (ONum 1)" by simp
  have g: "global_at ?q = 5" "global_at ?q < length (heap ?q)" "global_at ?q \<noteq> 0" by code_simp+
  have gr: "grounded (heap ?q) 5" by code_simp
  have ab: "find_slot (heap ?q) (protos (heap ?q) 5) ''a'' = Absent" by code_simp
  have len: "length (heap ?q) = 9" by code_simp
  from private_write_is_contained [OF a v2, of 0 "''name''" 8 hp os] g gr ab len
  have second: "private_object (new_private_object ''a'' ?q) ''a'' 9 \<and>
      proxy_set 8 (Some ''a'') ''name'' (ONum 1) ?q =
        proxy_set 8 (Some ''a'') ''name'' (ONum 1) (new_private_object ''a'' ?q)"
    by simp
  from a v po host b0 first gr ab len second show ?thesis by blast
qed

subsection \<open>start and the wrappers of the history functions\<close>

lemma reroutes_append: "reroutes (xs @ ys) = reroutes xs + reroutes ys"
  by (induction xs rule: reroutes.induct) auto

lemma loadAndMountApp_frame:
  "pushState (loadAndMountApp m s) = pushState s"
  "replaceState (loadAndMountApp m s) = replaceState s"
  "popstate (loadAndMountApp m s) = popstate s"
  "apps (loadAndMountApp m s) = apps s"
  "pathname (loadAndMountApp m s) = pathname s"
  "activeApp (loadAndMountApp m s) = activeApp s"
  "sandbox (loadAndMountApp m s) = sandbox s"
  "window (loadAndMountApp m s) = window s"
  "reroutes (trace (loadAndMountApp m s)) = reroutes (trace s)"
  by (auto simp: loadAndMountApp_def reroutes_append split: option.splits)

lemma unmountApp_frame:
  assumes "unmountApp a s = Normal t \<or> unmountApp a s = Thrown t"
  shows "pushState t = pushState s" "replaceState t = replaceState s"
    "popstate t = popstate s" "apps t = apps s" "pathname t = pathname s"
    "window t = window s" "reroutes (trace t) = reroutes (trace s)"
  using assms
  by (auto simp: unmountApp_def call_hook_def log_def reroutes_append
           split: option.splits call_result.splits)

lemma reroute_frame:
  assumes "reroute s = Normal t \<or> reroute s = Thrown t"
  shows "pushState t = pushState s" "replaceState t = replaceState s"
    "popstate t = popstate s" "apps t = apps s" "pathname t = pathname s"
    "window t = window s" "reroutes (trace t) = Suc (reroutes (trace s))"
  using assms
  by (auto simp: reroute_def Let_def log_def loadAndMountApp_frame reroutes_append
           split: option.splits if_splits outcome.splits
           dest: unmountApp_frame [OF disjI1] unmountApp_frame [OF disjI2])

lemma outcome_cases: "r = Normal (state_of r) \<or> r = Thrown (state_of r)"
  by (cases r) simp_all

text \<open>After a notification that returned, a further one for the same path does nothing.\<close>

lemma reroute_again:
  assumes "reroute s = Normal t"
  shows "reroute t = Normal (log [Reroute (pathname t)] t)"
proof (cases "matchedApp s")
  case None
  with assms have t: "t = log [Reroute (pathname s)] s" by (simp add: reroute_def)
  have "matchedApp t = None" using None by (simp add: t matchedApp_def log_def)
  then show ?thesis by (simp add: reroute_def)
next
  case (Some m)
  have fr: "apps t = apps s" "pathname t = pathname s"
    using reroute_frame [OF disjI1 [OF assms]] by simp_all
  then have mt: "matchedApp t = Some m" using Some by (simp add: matchedApp_def)
  have "\<exists>a. activeApp t = Some a \<and> name a = name m"
    using assms Some
    by (auto simp: reroute_def Let_def log_def loadAndMountApp_frame
             split: option.splits if_splits outcome.splits)
  then show ?thesis using mt by (auto simp: reroute_def)
qed

text \<open>
  A call of a history function that carries \<open>n\<close> wrappers. When the browser refuses the
  address, no wrapper gets to its notification. When the first notification returns,
  each of the \<open>n\<close> wrappers makes one. When the first notification raises, the
  exception leaves through the other wrappers, which make none.
\<close>

lemma call_history_refused:
  assumes "b (pathname s) u = None"
  shows "call_history b ((Patched ^^ n) Native) u s = Thrown s"
  using assms by (induction n) simp_all

lemma call_history_returns:
  assumes "b (pathname s) u = Some q" and "reroute (s\<lparr>pathname := q\<rparr>) = Normal t0"
  shows "\<exists>t. call_history b ((Patched ^^ n) Native) u s = Normal t \<and>
             reroutes (trace t) = reroutes (trace s) + n \<and>
             (0 < n \<longrightarrow> reroute t = Normal (log [Reroute (pathname t)] t))"
proof (induction n)
  case 0
  from assms(1) show ?case by simp
next
  case (Suc n)
  show ?case
  proof (cases n)
    case 0
    from reroute_frame(7) [OF disjI1 [OF assms(2)]] reroute_again [OF assms(2)] assms 0
    show ?thesis by simp
  next
    case (Suc k)
    with Suc.IH obtain t where
      t: "call_history b ((Patched ^^ n) Native) u s = Normal t"
         "reroutes (trace t) = reroutes (trace s) + n"
         "reroute t = Normal (log [Reroute (pathname t)] t)"
      by auto
    have "reroute (log [Reroute (pathname t)] t) =
            Normal (log [Reroute (pathname (log [Reroute (pathname t)] t))]
                      (log [Reroute (pathname t)] t))"
      using reroute_again [OF t(3)] .
    with t show ?thesis by (simp add: log_def reroutes_append)
  qed
qed

lemma call_history_raises:
  assumes "b (pathname s) u = Some q" and "reroute (s\<lparr>pathname := q\<rparr>) = Thrown t"
  shows "call_history b ((Patched ^^ Suc n) Native) u s = Thrown t"
  using assms by (induction n) simp_all

lemma call_history_notifications:
  "notifications s (call_history b ((Patched ^^ n) Native) u s) =
     (case b (pathname s) u of
        None \<Rightarrow> 0
      | Some q \<Rightarrow> if returned (reroute (s\<lparr>pathname := q\<rparr>)) then n else min n 1)"
proof (cases "b (pathname s) u")
  case None
  from call_history_refused [where b = b and s = s and u = u and n = n] None
  show ?thesis by (simp add: notifications_def)
next
  case (Some q)
  show ?thesis
  proof (cases "reroute (s\<lparr>pathname := q\<rparr>)")
    case (Normal t0)
    from call_history_returns [where b = b and s = s and u = u and q = q and n = n] Some Normal
    show ?thesis by (auto simp: notifications_def)
  next
    case (Thrown t)
    show ?thesis
    proof (cases n)
      case 0
      with Some Thrown show ?thesis by (simp add: notifications_def)
    next
      case (Suc k)
      from reroute_frame(7) [OF disjI2 [OF Thrown]]
        call_history_raises [where b = b and s = s and u = u and q = q and n = k] Some Thrown Suc
      show ?thesis by (simp add: notifications_def)
    qed
  qed
qed

lemma call_history_frame:
  "pushState (state_of (call_history b f u s)) = pushState s"
  "replaceState (state_of (call_history b f u s)) = replaceState s"
  "popstate (state_of (call_history b f u s)) = popstate s"
proof (induction f)
  case Native
  case 1 show ?case by (simp split: option.splits)
  case 2 show ?case by (simp split: option.splits)
  case 3 show ?case by (simp split: option.splits)
next
  case (Patched f)
  note ih = Patched.IH
  have "pushState (state_of (call_history b (Patched f) u s)) = pushState s \<and>
        replaceState (state_of (call_history b (Patched f) u s)) = replaceState s \<and>
        popstate (state_of (call_history b (Patched f) u s)) = popstate s"
  proof (cases "call_history b f u s")
    case (Thrown t)
    with ih show ?thesis by simp
  next
    case (Normal s1)
    from reroute_frame(1-3) [OF outcome_cases [of "reroute s1"]] ih Normal
    show ?thesis by simp
  qed
  then show "pushState (state_of (call_history b (Patched f) u s)) = pushState s"
    "replaceState (state_of (call_history b (Patched f) u s)) = replaceState s"
    "popstate (state_of (call_history b (Patched f) u s)) = popstate s"
    by simp_all
qed

lemma start_frame:
  "pushState (state_of (start s)) = Patched (pushState s)"
  "replaceState (state_of (start s)) = Patched (replaceState s)"
  "popstate (state_of (start s)) = Suc (popstate s)"
  using reroute_frame(1-3)
          [OF outcome_cases [of "reroute (patchRouter (s\<lparr>sandbox := createSandbox (window s)\<rparr>))"]]
  by (simp_all add: start_def patchRouter_def)

lemma start_times_frame:
  "pushState (start_times n s) = (Patched ^^ n) (pushState s)"
  "replaceState (start_times n s) = (Patched ^^ n) (replaceState s)"
  "popstate (start_times n s) = popstate s + n"
  by (induction n) (simp_all add: start_frame)

text \<open>Nothing but \<^verbatim>\<open>start\<close> changes the history functions or the listeners.\<close>

lemma loadStyles_history:
  "pushState (loadStyles e us n s) = pushState s"
  "replaceState (loadStyles e us n s) = replaceState s"
  "popstate (loadStyles e us n s) = popstate s"
  by (induction us arbitrary: s) (auto simp: log_def split: option.splits)

lemma run_scripts_history:
  "pushState (run_scripts e us n s) = pushState s"
  "replaceState (run_scripts e us n s) = replaceState s"
  "popstate (run_scripts e us n s) = popstate s"
  by (induction us arbitrary: s) (auto simp: log_def split: option.splits)

lemma loadAndMountApp_rest_history:
  "pushState (loadAndMountApp_rest e m s) = pushState s"
  "replaceState (loadAndMountApp_rest e m s) = replaceState s"
  "popstate (loadAndMountApp_rest e m s) = popstate s"
  by (auto simp: loadAndMountApp_rest_def call_hook_def log_def executeScripts_def
                 run_scripts_history loadStyles_history appendChild_def
           split: option.splits call_result.splits)

lemma step_history:
  "pushState (step e a s) = pushState s"
  "replaceState (step e a s) = replaceState s"
  "popstate (step e a s) = popstate s"
proof -
  note r = reroute_frame(1-3) [OF outcome_cases [of "reroute (s\<lparr>pathname := p\<rparr>)" for p]]
  show "pushState (step e a s) = pushState s"
    by (cases a) (simp_all add: notify_def r loadAndMountApp_rest_history log_def)
  show "replaceState (step e a s) = replaceState s"
    by (cases a) (simp_all add: notify_def r loadAndMountApp_rest_history log_def)
  show "popstate (step e a s) = popstate s"
    by (cases a) (simp_all add: notify_def r loadAndMountApp_rest_history log_def)
qed

lemma run_history:
  "pushState (run e acts s) = pushState s"
  "replaceState (run e acts s) = replaceState s"
  "popstate (run e acts s) = popstate s"
  by (induction acts arbitrary: s) (simp_all add: step_history)

text \<open>
  Claim C7, as stated, fails: \<^verbatim>\<open>start\<close> has no guard, and \<^verbatim>\<open>patchRouter\<close> wraps
  whatever function it finds. After two calls of \<^verbatim>\<open>start\<close> both history functions are
  wrappers around wrappers, and one \<^verbatim>\<open>pushState\<close> to \<^verbatim>\<open>/a\<close> enters \<^verbatim>\<open>reroute\<close> twice.
\<close>

theorem start_twice_counterexample:
  "pushState (start_times 2 registered) = Patched (Patched Native) \<and>
   replaceState (start_times 2 registered) = Patched (Patched Native) \<and>
   trace (start_times 2 registered) = [Reroute ''/'', Reroute ''/''] \<and>
   trace (state_of (navigateTo same_origin ''/a'' (start_times 2 registered))) =
     [Reroute ''/'', Reroute ''/'', Reroute ''/a'', Fetch ''http://x/a'', Reroute ''/a'']"
  by code_simp

text \<open>
  Claim C7, amended. Every call of \<^verbatim>\<open>start\<close> wraps the two history functions once
  more and registers one more \<^verbatim>\<open>popstate\<close> listener; loads and notifications leave
  both as they are. In every state in which \<^verbatim>\<open>pushState\<close> (or \<^verbatim>\<open>replaceState\<close>) is the
  browser's function inside \<open>k\<close> wrappers, a call of it causes: no notification when
  the browser's function raises; otherwise \<open>k\<close> notifications when the first of them
  returns, and one notification (none for \<open>k = 0\<close>) when the first of them raises, as
  it does when the \<^verbatim>\<open>unmount\<close> hook of the active application raises. So a call causes
  exactly one notification when the functions carry one wrapper and the browser
  accepts the address.
\<close>

theorem start_wrapping_stacks:
  "pushState (start_times n s) = (Patched ^^ n) (pushState s) \<and>
   replaceState (start_times n s) = (Patched ^^ n) (replaceState s) \<and>
   popstate (start_times n s) = popstate s + n \<and>
   pushState (run e acts s) = pushState s \<and>
   replaceState (run e acts s) = replaceState s \<and>
   popstate (run e acts s) = popstate s \<and>
   (pushState t = (Patched ^^ k) Native \<longrightarrow>
      pushState (state_of (navigateTo b u t)) = pushState t \<and>
      notifications t (navigateTo b u t) =
        (case b (pathname t) u of
           None \<Rightarrow> 0
         | Some q \<Rightarrow> if returned (reroute (t\<lparr>pathname := q\<rparr>)) then k else min k 1)) \<and>
   (replaceState t = (Patched ^^ k) Native \<longrightarrow>
      replaceState (state_of (replaceTo b u t)) = replaceState t \<and>
      notifications t (replaceTo b u t) =
        (case b (pathname t) u of
           None \<Rightarrow> 0
         | Some q \<Rightarrow> if returned (reroute (t\<lparr>pathname := q\<rparr>)) then k else min k 1))"
  by (simp add: start_times_frame run_history navigateTo_def replaceTo_def call_history_frame
        call_history_notifications)

theorem start_wrapping_stacks_witness:
  "pushState started = (Patched ^^ Suc 0) Native \<and>
   same_origin (pathname started) ''/a'' = Some ''/a'' \<and>
   returned (reroute (started\<lparr>pathname := ''/a''\<rparr>)) \<and>
   notifications started (navigateTo same_origin ''/a'' started) = 1 \<and>
   same_origin (pathname started) ''http://y/a'' = None \<and>
   notifications started (navigateTo same_origin ''http://y/a'' started) = 0 \<and>
   pushState twiceR = (Patched ^^ Suc (Suc 0)) Native \<and>
   activeApp twiceR = Some appA \<and>
   hook_of (sandbox twiceR) ''a'' ''unmount'' = Some Raises \<and>
   \<not> returned (reroute (twiceR\<lparr>pathname := ''/b''\<rparr>)) \<and>
   notifications twiceR (navigateTo same_origin ''/b'' twiceR) = 1 \<and>
   replaceState twiceR = (Patched ^^ Suc (Suc 0)) Native \<and>
   notifications twiceR (replaceTo same_origin ''/a'' twiceR) = 2"
proof -
  have p1: "pushState started = (Patched ^^ Suc 0) Native" by code_simp
  have b1: "same_origin (pathname started) ''/a'' = Some ''/a''" by code_simp
  have r1: "returned (reroute (started\<lparr>pathname := ''/a''\<rparr>))" by code_simp
  have b0: "same_origin (pathname started) ''http://y/a'' = None" by code_simp
  have p2: "pushState twiceR = (Patched ^^ Suc (Suc 0)) Native" by code_simp
  have q2: "replaceState twiceR = (Patched ^^ Suc (Suc 0)) Native" by code_simp
  have a2: "activeApp twiceR = Some appA" by code_simp
  have h2: "hook_of (sandbox twiceR) ''a'' ''unmount'' = Some Raises" by code_simp
  have b2: "same_origin (pathname twiceR) ''/b'' = Some ''/b''" by code_simp
  have r2: "\<not> returned (reroute (twiceR\<lparr>pathname := ''/b''\<rparr>))" by code_simp
  have b3: "same_origin (pathname twiceR) ''/a'' = Some ''/a''" by code_simp
  have r3: "returned (reroute (twiceR\<lparr>pathname := ''/a''\<rparr>))" by code_simp
  from start_wrapping_stacks [of _ _ _ _ started "Suc 0" same_origin "''/a''"] p1 b1 r1
  have n1: "notifications started (navigateTo same_origin ''/a'' started) = 1" by simp
  from start_wrapping_stacks [of _ _ _ _ started "Suc 0" same_origin "''http://y/a''"] p1 b0
  have n0: "notifications started (navigateTo same_origin ''http://y/a'' started) = 0" by simp
  from start_wrapping_stacks [of _ _ _ _ twiceR "Suc (Suc 0)" same_origin "''/b''"] p2 b2 r2
  have n2: "notifications twiceR (navigateTo same_origin ''/b'' twiceR) = 1" by simp
  from start_wrapping_stacks [of _ _ _ _ twiceR "Suc (Suc 0)" same_origin "''/a''"] q2 b3 r3
  have n3: "notifications twiceR (replaceTo same_origin ''/a'' twiceR) = 2" by simp
  from p1 b1 r1 n1 b0 n0 p2 a2 h2 r2 n2 q2 n3 show ?thesis by simp
qed

subsection \<open>The selector rewriting\<close>

declare exec_all.simps [simp del] replace_all.simps [simp del]










subsection \<open>One application element in the document\<close>

lemma set_children_concat:
  "map_of l k = Some w \<Longrightarrow>
   \<exists>pre post. concat (map snd l) = pre @ w @ post \<and>
              concat (map snd (set_children k v l)) = pre @ v @ post"
proof (induction l)
  case Nil
  then show ?case by simp
next
  case (Cons kv l)
  obtain k' v' where kv: "kv = (k', v')" by (cases kv)
  show ?case
  proof (cases "k' = k")
    case True
    with Cons.prems kv have "v' = w" by simp
    with True kv show ?thesis by (intro exI [of _ "[]"] exI [of _ "concat (map snd l)"]) simp
  next
    case False
    with Cons kv obtain pre post where
      "concat (map snd l) = pre @ w @ post"
      "concat (map snd (set_children k v l)) = pre @ v @ post" by auto
    with False kv show ?thesis by (intro exI [of _ "v' @ pre"] exI [of _ post]) simp
  qed
qed

lemma set_children_absent: "map_of l k = None \<Longrightarrow> set_children k v l = l"
  by (induction l) auto

lemma mounted_appended:
  assumes "mounted s = []" and "map_of (containers s) k = Some w"
  shows "concat (map snd (set_children k (w @ [el]) (containers s))) = [el]"
proof -
  from set_children_concat [OF assms(2), of "w @ [el]"] obtain pre post where
    "mounted s = pre @ w @ post"
    "concat (map snd (set_children k (w @ [el]) (containers s))) = pre @ (w @ [el]) @ post"
    by (auto simp: mounted_def)
  with assms show ?thesis by simp
qed

lemma loadStyles_frame:
  "containers (loadStyles e us n s) = containers s"
  "activeApp (loadStyles e us n s) = activeApp s"
  "pending (loadStyles e us n s) = pending s"
  "sandbox (loadStyles e us n s) = sandbox s"
  by (induction us arbitrary: s) (auto simp: log_def split: option.splits)

lemma run_scripts_frame:
  "containers (run_scripts e us n s) = containers s"
  "activeApp (run_scripts e us n s) = activeApp s"
  "pending (run_scripts e us n s) = pending s"
  by (induction us arbitrary: s) (auto simp: log_def split: option.splits)

lemma executeScripts_frame:
  "containers (executeScripts e us a s) = containers s"
  "activeApp (executeScripts e us a s) = activeApp s"
  "pending (executeScripts e us a s) = pending s"
  by (simp_all add: executeScripts_def run_scripts_frame)

lemma call_hook_frame:
  "containers (state_of (call_hook n h s)) = containers s"
  "activeApp (state_of (call_hook n h s)) = activeApp s"
  "pending (state_of (call_hook n h s)) = pending s"
  by (auto simp: call_hook_def log_def split: option.splits call_result.splits)

lemma resume_frame:
  "activeApp (loadAndMountApp_rest e a s) = activeApp s"
  "pending (loadAndMountApp_rest e a s) = pending s"
  by (auto simp: loadAndMountApp_rest_def call_hook_frame executeScripts_frame loadStyles_frame appendChild_def
           split: option.splits)

lemma resume_containers:
  "containers (loadAndMountApp_rest e a s) = containers s \<or>
   (\<exists>w h. map_of (containers s) (container a) = Some w \<and>
      containers (loadAndMountApp_rest e a s) = set_children (container a) (w @ [appElement a h]) (containers s))"
  by (auto simp: loadAndMountApp_rest_def call_hook_frame executeScripts_frame loadStyles_frame appendChild_def
           split: option.splits)

lemma cleared:
  assumes "concat (map snd l) = [] \<or> (concat (map snd l) = [el] \<and> map_of l k = Some [el])"
  shows "concat (map snd (set_children k [] l)) = []"
proof (cases "map_of l k")
  case None
  with assms show ?thesis by (auto simp: set_children_absent)
next
  case (Some w)
  from set_children_concat [OF Some, of "[]"] obtain pre post where
    "concat (map snd l) = pre @ w @ post" "concat (map snd (set_children k [] l)) = pre @ post"
    by auto
  with assms Some show ?thesis by (auto simp: append_eq_Cons_conv)
qed

lemma mounted_same: "containers t = containers s \<Longrightarrow> mounted t = mounted s"
  by (simp add: mounted_def)

lemma single_active_same:
  "containers t = containers s \<Longrightarrow> activeApp t = activeApp s \<Longrightarrow> pending t = pending s \<Longrightarrow>
   single_active t = single_active s"
  by (simp add: single_active_def mounted_def cong: list.case_cong option.case_cong)

lemma single_active_empty: "pending t = [] \<Longrightarrow> mounted t = [] \<Longrightarrow> single_active t"
  by (simp add: single_active_def)

lemma single_active_one:
  "pending t = [] \<Longrightarrow> mounted t = [el] \<Longrightarrow> activeApp t = Some a \<Longrightarrow>
   map_of (containers t) (container a) = Some [el] \<Longrightarrow> el_id el = ''app-'' @ name a \<Longrightarrow>
   single_active t"
  by (simp add: single_active_def)

lemma single_active_cases:
  assumes "single_active s"
  shows "pending s = []"
    and "mounted s = [] \<or>
         (\<exists>a el. activeApp s = Some a \<and> mounted s = [el] \<and>
            map_of (containers s) (container a) = Some [el] \<and> el_id el = ''app-'' @ name a)"
  using assms by (auto simp: single_active_def split: list.splits option.splits)

lemma unmountApp_view:
  assumes "unmountApp a s = Normal u"
    and "mounted s = [] \<or> (mounted s = [el] \<and> map_of (containers s) (container a) = Some [el])"
  shows "mounted u = []" and "pending u = pending s"
    and "map_of (containers u) k = None \<longleftrightarrow> map_of (containers s) k = None"
proof -
  show "pending u = pending s"
    using assms(1)
    by (auto simp: unmountApp_def call_hook_def log_def split: option.splits call_result.splits)
  show "map_of (containers u) k = None \<longleftrightarrow> map_of (containers s) k = None"
    using assms(1)
    by (auto simp: unmountApp_def call_hook_def log_def map_of_set_children
             split: option.splits call_result.splits if_splits)
  show "mounted u = []"
  proof (cases "map_of (containers s) (container a)")
    case None
    with assms show ?thesis by (auto simp: unmountApp_def mounted_def)
  next
    case (Some w)
    from assms(2) have c: "concat (map snd (set_children (container a) [] (containers s))) = []"
      by (intro cleared) (simp add: mounted_def)
    from assms(1) Some have "containers u = set_children (container a) [] (containers s)"
      by (auto simp: unmountApp_def call_hook_def log_def split: option.splits call_result.splits)
    with c show ?thesis by (simp add: mounted_def)
  qed
qed

lemma unmountApp_thrown:
  assumes "unmountApp a s = Thrown u"
  shows "containers u = containers s" "activeApp u = activeApp s" "pending u = pending s"
  using assms
  by (auto simp: unmountApp_def call_hook_def log_def split: option.splits call_result.splits)

lemma loadAndMountApp_view:
  assumes "mounted s = []"
  shows "mounted (loadAndMountApp m s) = []"
    and "pending (loadAndMountApp m s) = pending s \<or>
         (pending (loadAndMountApp m s) = pending s @ [m] \<and>
          map_of (containers (loadAndMountApp m s)) (container m) \<noteq> None)"
proof -
  have "concat (map snd (set_children (container m) [] (containers s))) = []"
    using assms by (intro cleared) (simp add: mounted_def)
  then show "mounted (loadAndMountApp m s) = []"
    using assms by (auto simp: loadAndMountApp_def mounted_def split: option.splits)
  show "pending (loadAndMountApp m s) = pending s \<or>
         (pending (loadAndMountApp m s) = pending s @ [m] \<and>
          map_of (containers (loadAndMountApp m s)) (container m) \<noteq> None)"
    by (auto simp: loadAndMountApp_def map_of_set_children split: option.splits)
qed

lemma resume_single:
  assumes "mounted s = []" and "activeApp s = Some a" and "pending s = []"
    and "map_of (containers s) (container a) \<noteq> None"
  shows "single_active (loadAndMountApp_rest e a s)"
proof -
  from assms(4) obtain w where w: "map_of (containers s) (container a) = Some w" by auto
  from set_children_concat [OF w, of w] obtain pre post where "mounted s = pre @ w @ post"
    unfolding mounted_def by blast
  with assms(1) have w0: "w = []" by simp
  from resume_containers [of e a s] show ?thesis
  proof
    assume "containers (loadAndMountApp_rest e a s) = containers s"
    from mounted_same [OF this] assms show ?thesis
      by (intro single_active_empty) (simp_all add: resume_frame)
  next
    assume "\<exists>w h. map_of (containers s) (container a) = Some w \<and>
      containers (loadAndMountApp_rest e a s) = set_children (container a) (w @ [appElement a h]) (containers s)"
    with w w0 obtain h where
      c: "containers (loadAndMountApp_rest e a s) = set_children (container a) [appElement a h] (containers s)"
      by auto
    from mounted_appended [OF assms(1) w, of "appElement a h"] w0 c
    have m1: "mounted (loadAndMountApp_rest e a s) = [appElement a h]" by (simp add: mounted_def)
    have m2: "map_of (containers (loadAndMountApp_rest e a s)) (container a) = Some [appElement a h]"
      by (simp add: c map_of_set_children w)
    have m3: "el_id (appElement a h) = ''app-'' @ name a" by (simp add: appElement_def)
    show ?thesis
      using assms by (intro single_active_one [OF _ m1 _ m2 m3]) (simp_all add: resume_frame)
  qed
qed

lemma reroute_view:
  assumes "single_active s"
  shows "(containers (state_of (reroute s)) = containers s \<and>
          activeApp (state_of (reroute s)) = activeApp s \<and>
          pending (state_of (reroute s)) = []) \<or>
         (\<exists>m. activeApp (state_of (reroute s)) = Some m \<and> mounted (state_of (reroute s)) = [] \<and>
            (pending (state_of (reroute s)) = [] \<or>
             (pending (state_of (reroute s)) = [m] \<and>
              map_of (containers (state_of (reroute s))) (container m) \<noteq> None)))"
proof -
  note sa = single_active_cases [OF assms]
  let ?s0 = "log [Reroute (pathname s)] s"
  have s0: "containers ?s0 = containers s" "activeApp ?s0 = activeApp s" "pending ?s0 = []"
    "mounted ?s0 = mounted s"
    using sa(1) by (simp_all add: log_def mounted_def)
  show ?thesis
  proof (cases "matchedApp s")
    case None
    then show ?thesis using s0 by (simp add: reroute_def)
  next
    case (Some m)
    show ?thesis
    proof (cases "activeApp s")
      case None
      with sa(2) have "mounted s = []" by auto
      then have mt: "mounted (?s0\<lparr>activeApp := Some m\<rparr>) = []" by (simp add: mounted_def log_def)
      have "reroute s = Normal (loadAndMountApp m (?s0\<lparr>activeApp := Some m\<rparr>))"
        using Some None by (simp add: reroute_def)
      with loadAndMountApp_view [OF mt, of m] s0 show ?thesis
        by (auto simp: loadAndMountApp_frame)
    next
      case a: (Some a)
      show ?thesis
      proof (cases "name a = name m")
        case True
        with Some a have "reroute s = Normal ?s0" by (simp add: reroute_def)
        with s0 show ?thesis by simp
      next
        case False
        show ?thesis
        proof (cases "unmountApp a ?s0")
          case (Thrown t)
          with Some a False have "reroute s = Thrown t" by (simp add: reroute_def)
          with unmountApp_thrown [OF Thrown] s0 show ?thesis by simp
        next
          case (Normal u)
          from sa(2) a s0 obtain el where
            "mounted ?s0 = [] \<or>
             (mounted ?s0 = [el] \<and> map_of (containers ?s0) (container a) = Some [el])"
            by auto
          from unmountApp_view(1,2) [OF Normal this] s0
          have u: "mounted (u\<lparr>activeApp := Some m\<rparr>) = []" "pending (u\<lparr>activeApp := Some m\<rparr>) = []"
            by (simp_all add: mounted_def)
          have "reroute s = Normal (loadAndMountApp m (u\<lparr>activeApp := Some m\<rparr>))"
            using Some a False Normal by (simp add: reroute_def)
          with loadAndMountApp_view [OF u(1), of m] u(2) show ?thesis
            by (auto simp: loadAndMountApp_frame)
        qed
      qed
    qed
  qed
qed

lemma navigate_single:
  assumes "single_active s"
  shows "single_active (navigate e p s)"
proof -
  have sp: "single_active (s\<lparr>pathname := p\<rparr>)"
    using assms single_active_same [of "s\<lparr>pathname := p\<rparr>" s] by simp
  let ?t = "state_of (reroute (s\<lparr>pathname := p\<rparr>))"
  from reroute_view [OF sp] show ?thesis
  proof (elim disjE exE conjE)
    assume "containers ?t = containers (s\<lparr>pathname := p\<rparr>)"
      "activeApp ?t = activeApp (s\<lparr>pathname := p\<rparr>)" "pending ?t = []"
    with sp single_active_same [of "?t\<lparr>pending := []\<rparr>" "s\<lparr>pathname := p\<rparr>"]
      single_active_cases(1) [OF sp]
    show ?thesis
      by (simp add: navigate_def notify_def settle_all_def)
  next
    fix m assume "activeApp ?t = Some m" "mounted ?t = []" "pending ?t = []"
    with single_active_empty [of "?t\<lparr>pending := []\<rparr>"] mounted_same [of "?t\<lparr>pending := []\<rparr>" ?t]
    show ?thesis
      by (simp add: navigate_def notify_def settle_all_def)
  next
    fix m assume m: "activeApp ?t = Some m" "mounted ?t = []" "pending ?t = [m]"
      "map_of (containers ?t) (container m) \<noteq> None"
    with mounted_same [of "?t\<lparr>pending := []\<rparr>" ?t]
    have "single_active (loadAndMountApp_rest e m (?t\<lparr>pending := []\<rparr>))"
      by (intro resume_single) simp_all
    with m show ?thesis by (simp add: navigate_def notify_def settle_all_def)
  qed
qed

text \<open>
  Claim C1, as stated, fails. \<^verbatim>\<open>reroute\<close> does not wait for the asynchronous
  \<^verbatim>\<open>loadAndMountApp\<close>. When the notification for \<^verbatim>\<open>/b\<close> arrives while the entry
  document of \<open>a\<close> is still being fetched, \<^verbatim>\<open>unmountApp\<close> runs before \<open>a\<close> is mounted;
  then both loads run to their end, the elements of \<open>a\<close> and of \<open>b\<close> both stand in the
  container, and both \<^verbatim>\<open>mount\<close> hooks have been called with no \<^verbatim>\<open>unmount\<close> between them.
\<close>

theorem overlapping_loads_counterexample:
  "map el_id (mounted (run net [Navigate ''/a'', Navigate ''/b'', Settle 0, Settle 0] started)) =
     [''app-a'', ''app-b''] \<and>
   trace (run net [Navigate ''/a'', Navigate ''/b'', Settle 0, Settle 0] started) =
     [Reroute ''/'', Reroute ''/a'', Fetch ''http://x/a'', Reroute ''/b'', Fetch ''http://x/b'',
      Fetch ''a.js'', Call ''a'' ''mount'', Done ''a'' ''mount'',
      Fetch ''b.js'', Call ''b'' ''mount'', Done ''b'' ''mount'']"
  by code_simp

text \<open>
  Claim C1, amended. When every notification is processed with its load settled
  before the next notification arrives, then after every notification at most one
  application element is in the document, and it is the element of the active
  application in that application's container.
\<close>

theorem serial_navigation_single_active:
  assumes "single_active s"
  shows "single_active (navigations e ps s) \<and> length (mounted (navigations e ps s)) \<le> 1"
proof -
  have "single_active (navigations e ps s)"
    using assms by (induction ps arbitrary: s) (simp_all add: navigate_single)
  then show ?thesis by (auto simp: single_active_def split: list.splits)
qed

theorem serial_navigation_single_active_witness:
  "single_active started \<and>
   single_active (navigations net [''/a'', ''/b'', ''/b'', ''/'', ''/a''] started) \<and>
   map el_id (mounted (navigations net [''/a'', ''/b'', ''/b'', ''/'', ''/a''] started)) = [''app-a'']"
proof -
  have a: "single_active started" by code_simp
  have b: "map el_id (mounted (navigations net [''/a'', ''/b'', ''/b'', ''/'', ''/a''] started)) = [''app-a'']"
    by code_simp
  from serial_navigation_single_active [OF a, of net "[''/a'', ''/b'', ''/b'', ''/'', ''/a'']"] a b
  show ?thesis by simp
qed


subsection \<open>Unmount before mount\<close>

lemma hook_calls_append: "hook_calls h (xs @ ys) = hook_calls h xs @ hook_calls h ys"
  by (induction xs rule: hook_calls.induct) auto

lemma loadStyles_trace: "trace (loadStyles e us n s) = trace s @ map Fetch us"
  by (induction us arbitrary: s) (auto simp: log_def split: option.splits)

lemma run_scripts_trace: "trace (run_scripts e us n s) = trace s @ map Fetch us"
  by (induction us arbitrary: s) (auto simp: log_def split: option.splits)

lemma executeScripts_trace: "trace (executeScripts e us a s) = trace s @ map Fetch us"
  by (simp add: executeScripts_def run_scripts_trace)

lemma call_hook_trace:
  "\<exists>evs. trace (state_of (call_hook n h s)) = trace s @ evs \<and>
         set evs \<subseteq> {Call n h, Done n h}"
  by (auto simp: call_hook_def log_def split: option.splits call_result.splits)

lemma resume_trace:
  "\<exists>evs. trace (loadAndMountApp_rest e m s) = trace s @ evs \<and> list_all (load_event (name m)) evs"
proof (cases "fetch e (entry m)")
  case None
  then show ?thesis by (simp add: loadAndMountApp_rest_def)
next
  case (Some html)
  show ?thesis
  proof (cases "parseHtml html")
    case None
    with Some show ?thesis by (simp add: loadAndMountApp_rest_def)
  next
    case p: (Some p)
    let ?s3 = "executeScripts e (scripts p) m
                 (loadStyles e (styles p) (name m)
                   (appendChild (container m) (appElement m (htmlContent p)) s))"
    have t3: "trace ?s3 = trace s @ map Fetch (styles p) @ map Fetch (scripts p)"
      by (simp add: executeScripts_trace loadStyles_trace appendChild_def split: option.splits)
    from call_hook_trace [of "name m" "''mount''" ?s3] obtain evs where
      evs: "trace (state_of (call_hook (name m) ''mount'' ?s3)) = trace ?s3 @ evs"
        "set evs \<subseteq> {Call (name m) ''mount'', Done (name m) ''mount''}" by blast
    have "list_all (load_event (name m)) (map Fetch (styles p) @ map Fetch (scripts p) @ evs)"
      using evs(2) by (auto simp: list_all_iff)
    with evs(1) t3 Some p show ?thesis by (simp add: loadAndMountApp_rest_def)
  qed
qed

text \<open>
  Claim C2, as stated, fails in what it says of awaiting. \<^verbatim>\<open>unmountApp\<close> calls the
  \<^verbatim>\<open>unmount\<close> hook and drops what it returns. The \<^verbatim>\<open>unmount\<close> hook of \<open>a\<close> returns a
  pending promise; on the way from \<^verbatim>\<open>/a\<close> to \<^verbatim>\<open>/b\<close> the \<^verbatim>\<open>mount\<close> hook of \<open>b\<close> is called
  and returns before the work of that \<^verbatim>\<open>unmount\<close> ends.
\<close>

theorem pending_unmount_counterexample:
  "trace (run net [Navigate ''/a'', Settle 0, Navigate ''/b'', Settle 0,
                   Finish ''a'' ''unmount''] started) =
     [Reroute ''/'', Reroute ''/a'', Fetch ''http://x/a'', Fetch ''a.js'',
      Call ''a'' ''mount'', Done ''a'' ''mount'',
      Reroute ''/b'', Call ''a'' ''unmount'',
      Fetch ''http://x/b'', Fetch ''b.js'', Call ''b'' ''mount'', Done ''b'' ''mount'',
      Done ''a'' ''unmount'']"
  by code_simp

text \<open>
  Claim C2, amended. For a notification whose matched descriptor differs in name
  from the active application, whose \<^verbatim>\<open>unmount\<close> hook does not raise:
  \<^verbatim>\<open>unmountApp\<close> has returned, with the hook called and returned when there is one and
  the container exists, and with the active reference cleared, before the load of the
  matched application starts. Every event of that load, the call of the \<^verbatim>\<open>mount\<close> hook
  among them, comes after the events of the unmount in the trace. A promise returned
  by the \<^verbatim>\<open>unmount\<close> hook is not awaited.
\<close>

theorem unmount_returns_before_load_starts:
  assumes "matchedApp s = Some m" and "activeApp s = Some a" and "name a \<noteq> name m"
    and "hook_of (sandbox s) (name a) ''unmount'' \<noteq> Some Raises"
  shows "\<exists>u t L. unmountApp a (log [Reroute (pathname s)] s) = Normal u \<and>
           activeApp u = None \<and>
           trace u = trace s @ Reroute (pathname s) # unmount_events a s \<and>
           reroute s = Normal t \<and>
           t = loadAndMountApp m (u\<lparr>activeApp := Some m\<rparr>) \<and>
           trace (loadAndMountApp_rest e m t) = trace u @ L \<and>
           list_all (load_event (name m)) L"
proof -
  let ?s0 = "log [Reroute (pathname s)] s"
  have "\<exists>u. unmountApp a ?s0 = Normal u \<and> activeApp u = None \<and>
          trace u = trace s @ Reroute (pathname s) # unmount_events a s"
    using assms(4)
    by (auto simp: unmountApp_def call_hook_def log_def unmount_events_def
             split: option.splits call_result.splits)
  then obtain u where
    u: "unmountApp a ?s0 = Normal u" "activeApp u = None"
       "trace u = trace s @ Reroute (pathname s) # unmount_events a s"
    by blast
  let ?t = "loadAndMountApp m (u\<lparr>activeApp := Some m\<rparr>)"
  have r: "reroute s = Normal ?t" using assms u by (simp add: reroute_def)
  have "\<exists>F. trace ?t = trace u @ F \<and> list_all (load_event (name m)) F"
    by (auto simp: loadAndMountApp_def split: option.splits)
  then obtain F where F: "trace ?t = trace u @ F" "list_all (load_event (name m)) F" by blast
  from resume_trace [of e m ?t] obtain evs where
    evs: "trace (loadAndMountApp_rest e m ?t) = trace ?t @ evs" "list_all (load_event (name m)) evs" by blast
  from F evs have "trace (loadAndMountApp_rest e m ?t) = trace u @ (F @ evs)"
    "list_all (load_event (name m)) (F @ evs)" by simp_all
  with u r show ?thesis by blast
qed

theorem unmount_returns_before_load_starts_witness:
  "matchedApp (atA\<lparr>pathname := ''/b''\<rparr>) = Some appB \<and>
   activeApp (atA\<lparr>pathname := ''/b''\<rparr>) = Some appA \<and>
   hook_of (sandbox atA) ''a'' ''unmount'' = Some Pends \<and>
   unmount_events appA (atA\<lparr>pathname := ''/b''\<rparr>) = [Call ''a'' ''unmount''] \<and>
   (\<exists>u t L. unmountApp appA (log [Reroute ''/b''] (atA\<lparr>pathname := ''/b''\<rparr>)) = Normal u \<and>
      activeApp u = None \<and>
      trace u = trace atA @ [Reroute ''/b'', Call ''a'' ''unmount''] \<and>
      reroute (atA\<lparr>pathname := ''/b''\<rparr>) = Normal t \<and>
      trace (loadAndMountApp_rest net appB t) = trace u @ L \<and> list_all (load_event ''b'') L)"
proof -
  let ?s = "atA\<lparr>pathname := ''/b''\<rparr>"
  have m: "matchedApp ?s = Some appB" by code_simp
  have a: "activeApp ?s = Some appA" by code_simp
  have n: "name appA \<noteq> name appB" by code_simp
  have h: "hook_of (sandbox atA) ''a'' ''unmount'' = Some Pends" by code_simp
  have nm: "name appA = ''a''" "name appB = ''b''" by code_simp+
  have h': "hook_of (sandbox ?s) (name appA) ''unmount'' \<noteq> Some Raises" by (simp add: h nm)
  have ev: "unmount_events appA ?s = [Call ''a'' ''unmount'']" by code_simp
  from unmount_returns_before_load_starts [OF m a n h', of net] m a h ev nm
  show ?thesis by auto
qed


subsection \<open>What parseHtml extracts\<close>

text \<open>
  The loops of \<^verbatim>\<open>parseHtml\<close> end on every input: each of its patterns begins with a
  literal, so no match is empty. The same holds for the patterns of the tutorial text.
\<close>

lemma rmatch_length:
  "rmatch re s cap = Some (c, rest) \<Longrightarrow> length rest \<le> length s"
proof (induction re s cap rule: rmatch.induct)
  case (1 s cap)
  then show ?case by simp
next
  case (2 l r s cap)
  then show ?case by (fastforce split: if_splits)
next
  case (3 l r s cap)
  then show ?case by (fastforce split: if_splits)
next
  case (4 g c r cap)
  then show ?case by simp
next
  case (5 g c r x xs cap)
  then show ?case by (fastforce split: if_splits)
next
  case (6 g c r cap)
  then show ?case by simp
next
  case (7 g c r x xs cap)
  then show ?case by (fastforce split: if_splits option.splits)
next
  case (8 g c r cap)
  then show ?case by simp
next
  case (9 g c r x xs cap)
  then show ?case by (fastforce split: if_splits option.splits)
qed

lemma rmatch_consumes:
  assumes "rmatch (i # r) s cap = Some (c, rest)"
    and "\<exists>x l. i = Lit (x # l) \<or> i = LitI (x # l)"
  shows "length rest < length s"
proof -
  from assms(2) obtain x l where i: "i = Lit (x # l) \<or> i = LitI (x # l)" by blast
  with assms(1) have m: "rmatch r (drop (Suc (length l)) s) cap = Some (c, rest)"
    and ne: "s \<noteq> []"
    by (auto split: if_splits)
  from rmatch_length [OF m] ne show ?thesis by (cases s) auto
qed

lemma exec_all_total:
  assumes "\<exists>x l. i = Lit (x # l) \<or> i = LitI (x # l)"
  shows "\<exists>caps. exec_all (i # r) s = Some caps"
proof (induction s rule: length_induct)
  case (1 s)
  show ?case
  proof (cases "rmatch (i # r) s []")
    case None
    show ?thesis
    proof (cases s)
      case Nil
      with None show ?thesis by (subst exec_all.simps) simp
    next
      case (Cons x xs)
      with 1 obtain caps where "exec_all (i # r) xs = Some caps" by fastforce
      with None Cons show ?thesis by (subst exec_all.simps) simp
    qed
  next
    case (Some m)
    obtain c rest where m: "m = (c, rest)" by (cases m)
    from rmatch_consumes [OF Some [unfolded m] assms] have lt: "length rest < length s" .
    with 1 obtain caps where "exec_all (i # r) rest = Some caps" by blast
    with Some m lt show ?thesis by (subst exec_all.simps) simp
  qed
qed

lemma parseHtml_total: "\<exists>p. parseHtml html = Some p"
proof -
  obtain a where a: "exec_all scriptRegex html = Some a"
    using exec_all_total [of "Lit ''<script''"] unfolding scriptRegex_def by fastforce
  obtain b where b: "exec_all styleRegex html = Some b"
    using exec_all_total [of "Lit ''<link''"] unfolding styleRegex_def by fastforce
  from a b show ?thesis by (simp add: parseHtml_def)
qed

lemma parseHTML_total: "\<exists>p. parseHTML resolve html baseUrl = Some p"
proof -
  obtain a where a: "exec_all scriptRegexT html = Some a"
    using exec_all_total [of "LitI ''<script''"] unfolding scriptRegexT_def by fastforce
  obtain b where b: "exec_all inlineScriptRegex html = Some b"
    using exec_all_total [of "LitI ''<script''"] unfolding inlineScriptRegex_def by fastforce
  obtain c where c: "exec_all styleRegexT html = Some c"
    using exec_all_total [of "LitI ''<link''"] unfolding styleRegexT_def by fastforce
  obtain d where d: "exec_all inlineStyleRegex html = Some d"
    using exec_all_total [of "LitI ''<style''"] unfolding inlineStyleRegex_def by fastforce
  from a b c d show ?thesis by (simp add: parseHTML_def split: option.splits)
qed

text \<open>
  \<^verbatim>\<open>parseHTML\<close> raises as soon as the first external script address cannot be resolved.
\<close>

lemma parseHTML_raises:
  assumes "exec_all scriptRegexT html = Some (u # us)" and "resolve u baseUrl = None"
  shows "parseHTML resolve html baseUrl = Some Raised"
  using assms by (simp add: parseHTML_def)


































subsection \<open>Repeated activations\<close>

lemma unmountApp_hook_calls:
  assumes "unmountApp a s = Normal t \<or> unmountApp a s = Thrown t"
  shows "hook_calls ''bootstrap'' (trace t) = hook_calls ''bootstrap'' (trace s)"
  using assms
  by (auto simp: unmountApp_def call_hook_def log_def hook_calls_append
           split: option.splits call_result.splits)

lemma reroute_hook_calls:
  "hook_calls ''bootstrap'' (trace (state_of (reroute s))) = hook_calls ''bootstrap'' (trace s)"
  by (auto simp: reroute_def Let_def log_def loadAndMountApp_def hook_calls_append
           split: option.splits outcome.splits
           dest: unmountApp_hook_calls [OF disjI1] unmountApp_hook_calls [OF disjI2])

lemma hook_calls_load_events:
  "list_all (load_event n) evs \<Longrightarrow> hook_calls ''bootstrap'' evs = []"
proof (induction evs)
  case Nil
  then show ?case by simp
next
  case (Cons ev evs)
  then show ?case by (cases ev) auto
qed

lemma resume_hook_calls:
  "hook_calls ''bootstrap'' (trace (loadAndMountApp_rest e m s)) = hook_calls ''bootstrap'' (trace s)"
  using resume_trace [of e m s] by (auto simp: hook_calls_append hook_calls_load_events)

lemma step_hook_calls:
  "hook_calls ''bootstrap'' (trace (step e a s)) = hook_calls ''bootstrap'' (trace s)"
  by (cases a)
    (simp_all add: notify_def reroute_hook_calls resume_hook_calls log_def hook_calls_append)

lemma run_hook_calls:
  "hook_calls ''bootstrap'' (trace (run e acts s)) = hook_calls ''bootstrap'' (trace s)"
  by (induction acts arbitrary: s) (simp_all add: step_hook_calls)

text \<open>
  \<^verbatim>\<open>reroute\<close> consults no record of earlier loads: whenever it returns and the matched
  descriptor is not the active application by name, it has called \<^verbatim>\<open>loadAndMountApp\<close>
  for the matched descriptor, in the state that \<^verbatim>\<open>unmountApp\<close> has left.
\<close>

lemma reroute_calls_loadAndMountApp:
  assumes "matchedApp s = Some m" and "\<forall>a. activeApp s = Some a \<longrightarrow> name a \<noteq> name m"
    and "reroute s = Normal t"
  shows "\<exists>u. t = loadAndMountApp m (u\<lparr>activeApp := Some m\<rparr>) \<and>
           trace u = trace s @ Reroute (pathname s) #
                       (case activeApp s of None \<Rightarrow> [] | Some a \<Rightarrow> unmount_events a s)"
proof (cases "activeApp s")
  case None
  with assms have "t = loadAndMountApp m ((log [Reroute (pathname s)] s)\<lparr>activeApp := Some m\<rparr>)"
    by (simp add: reroute_def)
  with None show ?thesis by (intro exI [of _ "log [Reroute (pathname s)] s"]) (simp add: log_def)
next
  case (Some a)
  with assms obtain u where
    u: "unmountApp a (log [Reroute (pathname s)] s) = Normal u"
       "t = loadAndMountApp m (u\<lparr>activeApp := Some m\<rparr>)"
    by (auto simp: reroute_def split: outcome.splits)
  from u(1) have "trace u = trace s @ Reroute (pathname s) # unmount_events a s"
    by (auto simp: unmountApp_def call_hook_def log_def unmount_events_def
             split: option.splits call_result.splits)
  with u(2) Some show ?thesis by auto
qed

text \<open>
  When the request for the entry document has succeeded, the rest of
  \<^verbatim>\<open>loadAndMountApp\<close> requests every style sheet and every script that \<^verbatim>\<open>parseHtml\<close>
  finds in it, and then calls the \<^verbatim>\<open>mount\<close> hook if there is one.
\<close>

lemma loadAndMountApp_rest_requests:
  assumes "fetch e (entry m) = Some html"
  shows "\<exists>p evs. parseHtml html = Some p \<and>
           trace (loadAndMountApp_rest e m s) =
             trace s @ map Fetch (styles p) @ map Fetch (scripts p) @ evs \<and>
           set evs \<subseteq> {Call (name m) ''mount'', Done (name m) ''mount''}"
proof -
  from parseHtml_total obtain p where p: "parseHtml html = Some p" by blast
  let ?s3 = "executeScripts e (scripts p) m
               (loadStyles e (styles p) (name m)
                 (appendChild (container m) (appElement m (htmlContent p)) s))"
  have t3: "trace ?s3 = trace s @ map Fetch (styles p) @ map Fetch (scripts p)"
    by (simp add: executeScripts_trace loadStyles_trace appendChild_def split: option.splits)
  from call_hook_trace [of "name m" "''mount''" ?s3] obtain evs where
    evs: "trace (state_of (call_hook (name m) ''mount'' ?s3)) = trace ?s3 @ evs"
      "set evs \<subseteq> {Call (name m) ''mount'', Done (name m) ''mount''}" by blast
  from evs t3 assms p show ?thesis by (auto simp: loadAndMountApp_rest_def)
qed

text \<open>
  Claim C10, as stated, fails: nothing is cached. On the way \<^verbatim>\<open>/a\<close>, \<^verbatim>\<open>/b\<close>, \<^verbatim>\<open>/a\<close> the
  entry document of \<open>a\<close> is fetched twice, and so is its script.
\<close>

theorem reload_counterexample:
  "count_list (trace (navigations net [''/a'', ''/b'', ''/a''] started)) (Fetch ''http://x/a'') = 2 \<and>
   count_list (trace (navigations net [''/a'', ''/b'', ''/a''] started)) (Fetch ''a.js'') = 2"
  by code_simp

text \<open>
  Claim C10, amended. No \<^verbatim>\<open>bootstrap\<close> hook is ever called, in any run, and nothing is
  cached. Every notification that returns and whose matched descriptor is not the
  active application by name calls \<^verbatim>\<open>loadAndMountApp\<close> for the matched descriptor,
  after \<^verbatim>\<open>unmountApp\<close> if an application was active. Every call of \<^verbatim>\<open>loadAndMountApp\<close>
  that finds the container of the application in the document at that moment sends a
  new request for the entry document and suspends a new load; a call that does not
  find it does nothing. When the load resumes and the request has succeeded, every
  style sheet and every script named in the entry document is requested again, in
  this order, before the \<^verbatim>\<open>mount\<close> hook is called; when the request has failed,
  nothing more happens.
\<close>

theorem every_activation_fetches_again:
  "(map_of (containers s) (container m) \<noteq> None \<longrightarrow>
      trace (loadAndMountApp m s) = trace s @ [Fetch (entry m)] \<and>
      pending (loadAndMountApp m s) = pending s @ [m]) \<and>
   (map_of (containers s) (container m) = None \<longrightarrow> loadAndMountApp m s = s) \<and>
   (matchedApp s = Some m \<and> (\<forall>a. activeApp s = Some a \<longrightarrow> name a \<noteq> name m) \<and>
    reroute s = Normal t \<longrightarrow>
      (\<exists>u. t = loadAndMountApp m (u\<lparr>activeApp := Some m\<rparr>) \<and>
           trace u = trace s @ Reroute (pathname s) #
                       (case activeApp s of None \<Rightarrow> [] | Some a \<Rightarrow> unmount_events a s))) \<and>
   (fetch e (entry m) = Some html \<longrightarrow>
      (\<exists>p evs. parseHtml html = Some p \<and>
         trace (loadAndMountApp_rest e m s) =
           trace s @ map Fetch (styles p) @ map Fetch (scripts p) @ evs \<and>
         set evs \<subseteq> {Call (name m) ''mount'', Done (name m) ''mount''})) \<and>
   (fetch e (entry m) = None \<longrightarrow> loadAndMountApp_rest e m s = s) \<and>
   hook_calls ''bootstrap'' (trace (run e acts s)) = hook_calls ''bootstrap'' (trace s)"
proof -
  have 1: "map_of (containers s) (container m) \<noteq> None \<longrightarrow>
      trace (loadAndMountApp m s) = trace s @ [Fetch (entry m)] \<and>
      pending (loadAndMountApp m s) = pending s @ [m]"
    by (auto simp: loadAndMountApp_def)
  have 2: "map_of (containers s) (container m) = None \<longrightarrow> loadAndMountApp m s = s"
    by (simp add: loadAndMountApp_def)
  have 3: "matchedApp s = Some m \<and> (\<forall>a. activeApp s = Some a \<longrightarrow> name a \<noteq> name m) \<and>
    reroute s = Normal t \<longrightarrow>
      (\<exists>u. t = loadAndMountApp m (u\<lparr>activeApp := Some m\<rparr>) \<and>
           trace u = trace s @ Reroute (pathname s) #
                       (case activeApp s of None \<Rightarrow> [] | Some a \<Rightarrow> unmount_events a s))"
    using reroute_calls_loadAndMountApp [of s m t] by blast
  have 4: "fetch e (entry m) = Some html \<longrightarrow>
      (\<exists>p evs. parseHtml html = Some p \<and>
         trace (loadAndMountApp_rest e m s) =
           trace s @ map Fetch (styles p) @ map Fetch (scripts p) @ evs \<and>
         set evs \<subseteq> {Call (name m) ''mount'', Done (name m) ''mount''})"
    using loadAndMountApp_rest_requests [of e m html s] by blast
  have 5: "fetch e (entry m) = None \<longrightarrow> loadAndMountApp_rest e m s = s"
    by (simp add: loadAndMountApp_rest_def)
  from 1 2 3 4 5 run_hook_calls [of e acts s] show ?thesis by blast
qed

theorem every_activation_fetches_again_witness:
  \<open>matchedApp (atA\<lparr>pathname := ''/b''\<rparr>) = Some appB \<and>
   activeApp (atA\<lparr>pathname := ''/b''\<rparr>) = Some appA \<and>
   map_of (containers atA) ''#c'' \<noteq> None \<and>
   trace (loadAndMountApp appB atA) = trace atA @ [Fetch ''http://x/b''] \<and>
   map_of (containers atA) ''#d'' = None \<and>
   loadAndMountApp (appB\<lparr>container := ''#d''\<rparr>) atA = atA \<and>
   (\<exists>t u. reroute (atA\<lparr>pathname := ''/b''\<rparr>) = Normal t \<and>
      t = loadAndMountApp appB (u\<lparr>activeApp := Some appB\<rparr>) \<and>
      trace u = trace atA @ [Reroute ''/b'', Call ''a'' ''unmount'']) \<and>
   fetch net ''http://x/b'' = Some (page ''b'') \<and>
   (\<exists>p evs. parseHtml (page ''b'') = Some p \<and> styles p = [] \<and> scripts p = [''b.js''] \<and>
      trace (loadAndMountApp_rest net appB atA) = trace atA @ [Fetch ''b.js''] @ evs) \<and>
   fetch net ''http://x/c'' = None \<and>
   loadAndMountApp_rest net (appB\<lparr>entry := ''http://x/c''\<rparr>) atA = atA\<close>
proof -
  let ?s = "atA\<lparr>pathname := ''/b''\<rparr>"
  have m: "matchedApp ?s = Some appB" by code_simp
  have act: "activeApp ?s = Some appA" by code_simp
  have n: "name appA \<noteq> name appB" by code_simp
  have a: "\<forall>a. activeApp ?s = Some a \<longrightarrow> name a \<noteq> name appB" using act n by simp
  have c: "map_of (containers atA) (container appB) \<noteq> None" by code_simp
  have c': "map_of (containers atA) ''#c'' \<noteq> None" by code_simp
  have d: "map_of (containers atA) (container (appB\<lparr>container := ''#d''\<rparr>)) = None" by code_simp
  have d': "map_of (containers atA) ''#d'' = None" by code_simp
  have e: "entry appB = ''http://x/b''" by code_simp
  have ev: "unmount_events appA ?s = [Call ''a'' ''unmount'']" by code_simp
  have f: "fetch net (entry appB) = Some (page ''b'')" by code_simp
  have f': "fetch net ''http://x/b'' = Some (page ''b'')" by code_simp
  have g: "fetch net (entry (appB\<lparr>entry := ''http://x/c''\<rparr>)) = None" by code_simp
  have g': "fetch net ''http://x/c'' = None" by code_simp
  have ph: \<open>parseHtml (page ''b'') =
              Some \<lparr>scripts = [''b.js''], styles = [], htmlContent = ''<div>b</div>''\<rparr>\<close>
    by code_simp
  have "returned (reroute ?s)" by code_simp
  then obtain t where t: "reroute ?s = Normal t" by (cases "reroute ?s") simp_all
  from every_activation_fetches_again [of atA appB atA net "[]" "[]"] c e
  have 1: "trace (loadAndMountApp appB atA) = trace atA @ [Fetch ''http://x/b'']" by simp
  from every_activation_fetches_again [of atA "appB\<lparr>container := ''#d''\<rparr>" atA net "[]" "[]"] d
  have 2: "loadAndMountApp (appB\<lparr>container := ''#d''\<rparr>) atA = atA" by simp
  from every_activation_fetches_again [of ?s appB t net "[]" "[]"] m a t act ev
  have 3: "\<exists>t u. reroute ?s = Normal t \<and> t = loadAndMountApp appB (u\<lparr>activeApp := Some appB\<rparr>) \<and>
            trace u = trace atA @ [Reroute ''/b'', Call ''a'' ''unmount'']"
    by auto
  from every_activation_fetches_again [of atA appB atA net "page ''b''" "[]"] f ph
  have 4: "\<exists>p evs. parseHtml (page ''b'') = Some p \<and> styles p = [] \<and> scripts p = [''b.js''] \<and>
      trace (loadAndMountApp_rest net appB atA) = trace atA @ [Fetch ''b.js''] @ evs"
    by auto
  from every_activation_fetches_again [of atA "appB\<lparr>entry := ''http://x/c''\<rparr>" atA net "[]" "[]"] g
  have 5: "loadAndMountApp_rest net (appB\<lparr>entry := ''http://x/c''\<rparr>) atA = atA" by simp
  from m act c' 1 d' 2 3 f' 4 g' 5 show ?thesis by blast
qed

end
